theory Spec2Isabelle
  imports Complex_Main
begin

section \<open>Terms, clauses and environments\<close>

text \<open>
  The classes of the \<^verbatim>\<open>logic\<close> module (imported by \<^verbatim>\<open>runtime.py\<close> and
  \<^verbatim>\<open>logicdb.py\<close>) as one datatype. \<^verbatim>\<open>Literal\<close> is the common base class of
  \<^verbatim>\<open>NumberLiteral\<close>, \<^verbatim>\<open>StringLiteral\<close> and \<^verbatim>\<open>ListLiteral\<close>.

  Modelled from the spec: the \<^verbatim>\<open>logic\<close> module is not among the sources; the
  variants, their fields (\<^verbatim>\<open>name\<close>, \<^verbatim>\<open>args\<close>, \<^verbatim>\<open>f\<close>) and structural equality
  are those of the data model of the specification. Numbers are idealised as reals
  (rounding is not modelled). Every term object is truthy in a Python condition; only
  \<^verbatim>\<open>None\<close> is falsy.
\<close>

datatype prolog_term =
    Variable string
  | NumberLiteral real
  | StringLiteral string
  | ListLiteral "prolog_term list"
  | Predicate string "prolog_term list"

fun is_Literal :: "prolog_term \<Rightarrow> bool" where
  "is_Literal (NumberLiteral f) = True"
| "is_Literal (StringLiteral s) = True"
| "is_Literal (ListLiteral l) = True"
| "is_Literal (Variable v) = False"
| "is_Literal (Predicate n as) = False"

text \<open>A clause: \<^verbatim>\<open>body\<close> is \<^verbatim>\<open>None\<close> for a fact.\<close>

record Clause =
  head :: prolog_term
  body :: "prolog_term option"

text \<open>
  An environment is a Python dict from variable names to values. The code can store
  \<^verbatim>\<open>None\<close> as a value (the result of \<^verbatim>\<open>prolog_eval\<close>), so a value is a
  \<open>prolog_term option\<close>: \<open>env x = None\<close> is a missing key, \<open>env x = Some None\<close> is
  the key \<open>x\<close> holding \<^verbatim>\<open>None\<close>.
\<close>

type_synonym env = "string \<rightharpoonup> prolog_term option"

section \<open>Errors and results\<close>

text \<open>
  Exceptions are values. A computation yields \<open>None\<close> when it has not returned within
  its fuel, \<open>Some (Inl e)\<close> when it raises \<open>e\<close>, \<open>Some (Inr v)\<close> when it returns \<open>v\<close>.
\<close>

datatype error =
    PrologRuntimeError string
  | AttributeError
  | IndexError
  | ZeroDivisionError
  | DebuggerTrap

type_synonym 'a result = "(error + 'a) option"

definition ret :: "'a \<Rightarrow> 'a result" where
  "ret v = Some (Inr v)"

definition raise :: "error \<Rightarrow> 'a result" where
  "raise e = Some (Inl e)"

definition lift :: "error + 'a \<Rightarrow> 'a result" where
  "lift r = Some r"

definition bind_r :: "'a result \<Rightarrow> ('a \<Rightarrow> 'b result) \<Rightarrow> 'b result" where
  "bind_r m f = (case m of None \<Rightarrow> None | Some (Inl e) \<Rightarrow> Some (Inl e) | Some (Inr v) \<Rightarrow> f v)"

text \<open>Attribute access and list indexing as Python does them.\<close>

fun get_name :: "prolog_term \<Rightarrow> error + string" where
  "get_name (Variable v) = Inr v"
| "get_name (Predicate n as) = Inr n"
| "get_name (NumberLiteral f) = Inl AttributeError"
| "get_name (StringLiteral s) = Inl AttributeError"
| "get_name (ListLiteral l) = Inl AttributeError"

fun get_args :: "prolog_term \<Rightarrow> error + prolog_term list" where
  "get_args (Predicate n as) = Inr as"
| "get_args (Variable v) = Inl AttributeError"
| "get_args (NumberLiteral f) = Inl AttributeError"
| "get_args (StringLiteral s) = Inl AttributeError"
| "get_args (ListLiteral l) = Inl AttributeError"

definition index :: "'a list \<Rightarrow> nat \<Rightarrow> error + 'a" where
  "index xs i = (if i < length xs then Inr (xs ! i) else Inl IndexError)"

section \<open>The runtime: operators and registries\<close>

definition prolog_unary_plus :: "real \<Rightarrow> prolog_term" where
  "prolog_unary_plus a = NumberLiteral a"

definition prolog_unary_minus :: "real \<Rightarrow> prolog_term" where
  "prolog_unary_minus a = NumberLiteral (- a)"

definition unary_operators :: "string \<rightharpoonup> (real \<Rightarrow> prolog_term)" where
  "unary_operators = [''+'' \<mapsto> prolog_unary_plus, ''-'' \<mapsto> prolog_unary_minus]"

definition prolog_binary_add :: "real \<Rightarrow> real \<Rightarrow> error + prolog_term" where
  "prolog_binary_add a b = Inr (NumberLiteral (a + b))"

definition prolog_binary_sub :: "real \<Rightarrow> real \<Rightarrow> error + prolog_term" where
  "prolog_binary_sub a b = Inr (NumberLiteral (a - b))"

definition prolog_binary_mul :: "real \<Rightarrow> real \<Rightarrow> error + prolog_term" where
  "prolog_binary_mul a b = Inr (NumberLiteral (a * b))"

definition prolog_binary_div :: "real \<Rightarrow> real \<Rightarrow> error + prolog_term" where
  "prolog_binary_div a b = (if b = 0 then Inl ZeroDivisionError else Inr (NumberLiteral (a / b)))"

definition prolog_binary_mod :: "real \<Rightarrow> real \<Rightarrow> error + prolog_term" where
  "prolog_binary_mod a b =
     (if b = 0 then Inl ZeroDivisionError
      else Inr (NumberLiteral (a - of_int \<lfloor>a / b\<rfloor> * b)))"

definition binary_operators :: "string \<rightharpoonup> (real \<Rightarrow> real \<Rightarrow> error + prolog_term)" where
  "binary_operators =
     [''+'' \<mapsto> prolog_binary_add,
      ''-'' \<mapsto> prolog_binary_sub,
      ''*'' \<mapsto> prolog_binary_mul,
      ''/'' \<mapsto> prolog_binary_div,
      ''mod'' \<mapsto> prolog_binary_mod]"


section \<open>The clause database (\<^verbatim>\<open>logicdb.py\<close>)\<close>

text \<open>
  Modelled from the spec: the relational backend (\<^verbatim>\<open>model.ORMClause\<close>, the SQLAlchemy
  session) and the JSON conversion of clauses are not among the sources. A session is the
  list of its rows in insertion order, a query returns the matching rows in that order,
  and a row keeps the clause itself, the conversion being a round trip.
\<close>

record ORMClause =
  orm_module :: string
  orm_arity :: nat
  orm_head :: string
  orm_prolog :: Clause

record LogicDB =
  session :: "ORMClause list"
  overlayZ :: "string \<rightharpoonup> Clause list"

record LogicDBOverlay =
  d_assertz :: "string \<rightharpoonup> Clause list"
  d_retracted :: "string \<rightharpoonup> Clause list"

text \<open>\<^verbatim>\<open>LogicDB.store\<close>: the row's fields are computed in the order arity, head.\<close>

definition store :: "LogicDB \<Rightarrow> string \<Rightarrow> Clause \<Rightarrow> error + LogicDB" where
  "store db modl clause =
     (case get_args (head clause) of
        Inl e \<Rightarrow> Inl e
      | Inr as \<Rightarrow>
          (case get_name (head clause) of
             Inl e \<Rightarrow> Inl e
           | Inr n \<Rightarrow>
               Inr (db\<lparr>session := session db @
                 [\<lparr>orm_module = modl, orm_arity = length as, orm_head = n,
                   orm_prolog = clause\<rparr>]\<rparr>)))"

text \<open>\<^verbatim>\<open>LogicDBOverlay.__init__\<close> and \<^verbatim>\<open>LogicDBOverlay.assertz\<close>.\<close>

definition LogicDBOverlay_init :: LogicDBOverlay where
  "LogicDBOverlay_init = \<lparr>d_assertz = Map.empty, d_retracted = Map.empty\<rparr>"

definition assertz :: "LogicDBOverlay \<Rightarrow> Clause \<Rightarrow> error + LogicDBOverlay" where
  "assertz ov clause =
     (case get_name (head clause) of
        Inl e \<Rightarrow> Inl e
      | Inr name \<Rightarrow>
          (case d_assertz ov name of
             Some cs \<Rightarrow> Inr (ov\<lparr>d_assertz := (d_assertz ov)(name \<mapsto> cs @ [clause])\<rparr>)
           | None \<Rightarrow> Inr (ov\<lparr>d_assertz := (d_assertz ov)(name \<mapsto> [clause])\<rparr>)))"

text \<open>
  \<^verbatim>\<open>LogicDBOverlay.do_filter\<close>. A name with retracted clauses stops in the debugger
  (\<^verbatim>\<open>pdb.set_trace()\<close>), modelled as the error \<open>DebuggerTrap\<close>. The list \<open>res\<close> is
  the caller's own fresh list; appending to it leaves the overlay as it was.
\<close>

definition do_filter :: "LogicDBOverlay \<Rightarrow> string \<Rightarrow> Clause list \<Rightarrow> error + Clause list" where
  "do_filter ov name res =
     (if name \<in> dom (d_retracted ov) then Inl DebuggerTrap
      else (case d_assertz ov name of
              Some cs \<Rightarrow> Inr (res @ cs)
            | None \<Rightarrow> Inr res))"

text \<open>
  \<^verbatim>\<open>LogicDB.lookup\<close>, in state-passing form: the result and the database after the
  call. \<^verbatim>\<open>overlay=None\<close> is \<open>None\<close>; an overlay object is truthy.
\<close>

definition lookup ::
  "LogicDB \<Rightarrow> string \<Rightarrow> LogicDBOverlay option \<Rightarrow> (error + Clause list) \<times> LogicDB" where
  "lookup db name overlay =
     (let res = map orm_prolog (filter (\<lambda>ormc. orm_head ormc = name) (session db))
      in (case overlay of
            None \<Rightarrow> (Inr res, db)
          | Some ov \<Rightarrow> (do_filter ov name res, db)))"

section \<open>Goal frames and the store of environments\<close>

text \<open>
  Environments are mutable dict objects: the caller's environment, and one owned by each
  goal frame. They live in a store, a list of dicts addressed by position; a new object
  is appended. A goal frame holds the address of its dict. Frames themselves are values:
  a frame that has become a parent is never changed again (only deep copies of it are),
  and each frame object is in the queue at most once.
\<close>

type_synonym heap = "env list"

definition alloc :: "heap \<Rightarrow> env \<Rightarrow> nat \<times> heap" where
  "alloc h e = (length h, h @ [e])"

datatype PrologGoal =
  PrologGoal (goal_head: prolog_term) (goal_terms: "prolog_term list")
    (goal_parent: "PrologGoal option") (goal_env: nat) (goal_inx: nat)

text \<open>
  \<^verbatim>\<open>PrologGoal.__init__\<close>: \<^verbatim>\<open>self.env = copy.deepcopy(env)\<close> allocates a new dict.
  The argument is the address of the dict passed, or \<open>None\<close> for the default \<^verbatim>\<open>{}\<close>.
\<close>

definition PrologGoal_init ::
  "heap \<Rightarrow> prolog_term \<Rightarrow> prolog_term list \<Rightarrow> PrologGoal option \<Rightarrow> nat option
     \<Rightarrow> PrologGoal \<times> heap" where
  "PrologGoal_init h hg ts par e =
     (let (r, h') = alloc h (case e of None \<Rightarrow> Map.empty | Some a \<Rightarrow> h ! a)
      in (PrologGoal hg ts par r 0, h'))"

text \<open>\<^verbatim>\<open>copy.deepcopy\<close> of a goal frame: the frame, its ancestors and all their dicts.\<close>

fun deepcopy_goal :: "heap \<Rightarrow> PrologGoal \<Rightarrow> PrologGoal \<times> heap" where
  "deepcopy_goal h (PrologGoal hg ts None e i) =
     (PrologGoal hg ts None (length h) i, h @ [h ! e])"
| "deepcopy_goal h (PrologGoal hg ts (Some p) e i) =
     (let (p', h1) = deepcopy_goal h p
      in (PrologGoal hg ts (Some p') (length h1) i, h1 @ [h1 ! e]))"

text \<open>
  The runtime object. The implementations of the builtin predicates and functions
  (module \<^verbatim>\<open>builtins\<close>) are not among the sources: they are parameters. A builtin
  predicate gets the goal frame and the value of its dict and returns its verdict and the
  dict as it leaves it; a builtin function gets the term and the environment.
\<close>

type_synonym builtin = "PrologGoal \<Rightarrow> env \<Rightarrow> error + bool \<times> env"
type_synonym builtin_function = "prolog_term \<Rightarrow> env \<Rightarrow> error + prolog_term option"

record PrologRuntime =
  db :: LogicDB
  builtins :: "string \<rightharpoonup> builtin"
  builtin_functions :: "string \<rightharpoonup> builtin_function"

definition register_builtin :: "PrologRuntime \<Rightarrow> string \<Rightarrow> builtin \<Rightarrow> PrologRuntime" where
  "register_builtin rt name b = rt\<lparr>builtins := (builtins rt)(name \<mapsto> b)\<rparr>"

definition register_builtin_function ::
  "PrologRuntime \<Rightarrow> string \<Rightarrow> builtin_function \<Rightarrow> PrologRuntime" where
  "register_builtin_function rt name fn =
     rt\<lparr>builtin_functions := (builtin_functions rt)(name \<mapsto> fn)\<rparr>"

text \<open>
  \<^verbatim>\<open>PrologRuntime.__init__\<close> registers the builtins under the names below, in this
  order. The implementations come from the absent module \<^verbatim>\<open>builtins\<close>.
\<close>

record builtin_impls =
  builtin_larger :: builtin
  builtin_smaller :: builtin
  builtin_smaller_or_equal :: builtin
  builtin_larger_or_equal :: builtin
  builtin_non_equal :: builtin
  builtin_equal :: builtin
  builtin_sub_string :: builtin
  builtin_date_time_stamp :: builtin
  builtin_stamp_date_time :: builtin
  builtin_get_time :: builtin
  builtin_write :: builtin
  builtin_nl :: builtin
  builtin_list_contains :: builtin
  builtin_format_str :: builtin_function
  builtin_isoformat :: builtin_function
  builtin_list_max :: builtin_function
  builtin_list_min :: builtin_function
  builtin_list_sum :: builtin_function
  builtin_list_avg :: builtin_function

definition PrologRuntime_init :: "builtin_impls \<Rightarrow> LogicDB \<Rightarrow> PrologRuntime" where
  "PrologRuntime_init bi d =
     (let rt = \<lparr>db = d, builtins = Map.empty, builtin_functions = Map.empty\<rparr>;
          rt = register_builtin rt ''>'' (builtin_larger bi);
          rt = register_builtin rt ''<'' (builtin_smaller bi);
          rt = register_builtin rt ''=<'' (builtin_smaller_or_equal bi);
          rt = register_builtin rt ''>='' (builtin_larger_or_equal bi);
          rt = register_builtin rt [CHR 0x5C, CHR ''=''] (builtin_non_equal bi);
          rt = register_builtin rt ''='' (builtin_equal bi);
          rt = register_builtin rt ''sub_string'' (builtin_sub_string bi);
          rt = register_builtin rt ''date_time_stamp'' (builtin_date_time_stamp bi);
          rt = register_builtin rt ''stamp_date_time'' (builtin_stamp_date_time bi);
          rt = register_builtin rt ''get_time'' (builtin_get_time bi);
          rt = register_builtin rt ''write'' (builtin_write bi);
          rt = register_builtin rt ''nl'' (builtin_nl bi);
          rt = register_builtin rt ''list_contains'' (builtin_list_contains bi);
          rt = register_builtin_function rt ''format_str'' (builtin_format_str bi);
          rt = register_builtin_function rt ''isoformat'' (builtin_isoformat bi);
          rt = register_builtin_function rt ''list_max'' (builtin_list_max bi);
          rt = register_builtin_function rt ''list_min'' (builtin_list_min bi);
          rt = register_builtin_function rt ''list_sum'' (builtin_list_sum bi);
          rt = register_builtin_function rt ''list_avg'' (builtin_list_avg bi)
      in rt)"

section \<open>The arithmetic evaluator (\<^verbatim>\<open>prolog_eval\<close>)\<close>

text \<open>
  The loop over \<^verbatim>\<open>term.args\<close> at the end of \<^verbatim>\<open>prolog_eval\<close>: it stops with
  \<^verbatim>\<open>None\<close> at the first argument that evaluates to \<^verbatim>\<open>None\<close>.
\<close>

fun eval_args ::
  "(prolog_term \<Rightarrow> prolog_term option result) \<Rightarrow> prolog_term list
     \<Rightarrow> prolog_term list option result" where
  "eval_args ev [] = ret (Some [])"
| "eval_args ev (arg # rest) =
     bind_r (ev arg) (\<lambda>a.
       case a of
         None \<Rightarrow> ret None
       | Some v \<Rightarrow>
           bind_r (eval_args ev rest) (\<lambda>r.
             case r of None \<Rightarrow> ret None | Some vs \<Rightarrow> ret (Some (v # vs))))"

text \<open>
  \<^verbatim>\<open>prolog_eval(term, env)\<close>. The argument \<open>self_eval\<close> stands for the recursive call
  \<^verbatim>\<open>self.prolog_eval\<close>.
\<close>

definition prolog_eval_body ::
  "PrologRuntime \<Rightarrow> (prolog_term \<Rightarrow> env \<Rightarrow> prolog_term option result)
     \<Rightarrow> prolog_term \<Rightarrow> env \<Rightarrow> prolog_term option result" where
  "prolog_eval_body rt self_eval term env =
     (case term of
        Predicate name args \<Rightarrow>
          (case (if length args = 1 then unary_operators name else None) of
             Some op \<Rightarrow>
               bind_r (self_eval (args ! 0) env) (\<lambda>a.
                 case a of
                   Some (NumberLiteral af) \<Rightarrow> ret (Some (op af))
                 | _ \<Rightarrow> ret None)
           | None \<Rightarrow>
               (case binary_operators name of
                  Some op \<Rightarrow>
                    if length args \<noteq> 2 then ret None
                    else
                      bind_r (self_eval (args ! 0) env) (\<lambda>a.
                        case a of
                          Some (NumberLiteral af) \<Rightarrow>
                            bind_r (self_eval (args ! 1) env) (\<lambda>b.
                              case b of
                                Some (NumberLiteral bf) \<Rightarrow>
                                  bind_r (lift (op af bf)) (\<lambda>v. ret (Some v))
                              | _ \<Rightarrow> ret None)
                        | _ \<Rightarrow> ret None)
                | None \<Rightarrow>
                    (case builtin_functions rt name of
                       Some fn \<Rightarrow> lift (fn term env)
                     | None \<Rightarrow>
                         bind_r (eval_args (\<lambda>arg. self_eval arg env) args) (\<lambda>r.
                           case r of
                             None \<Rightarrow> ret None
                           | Some vs \<Rightarrow> ret (Some (Predicate name vs))))))
      | Variable name \<Rightarrow>
          (case env name of
             Some (Some ans) \<Rightarrow> self_eval ans env
           | _ \<Rightarrow> ret None)
      | _ \<Rightarrow> ret (Some term))"

text \<open>
  \<^verbatim>\<open>prolog_eval\<close> recurses through the bindings of the environment, which can be
  cyclic, so it takes fuel: the depth of calls it may still make. A call that needs more
  depth than its fuel has no result (the interpreter's own recursion limit is not
  modelled).
\<close>

primrec prolog_eval ::
  "PrologRuntime \<Rightarrow> nat \<Rightarrow> prolog_term \<Rightarrow> env \<Rightarrow> prolog_term option result" where
  "prolog_eval rt 0 = (\<lambda>term env. None)"
| "prolog_eval rt (Suc n) = prolog_eval_body rt (prolog_eval rt n)"

section \<open>Unification (\<^verbatim>\<open>_unify\<close>)\<close>

text \<open>
  The loop over the argument pairs of \<^verbatim>\<open>_unify\<close>, on the scratch environment
  \<^verbatim>\<open>dde\<close>: it returns \<^verbatim>\<open>False\<close> at the first pair that does not unify.
\<close>

fun unify_args ::
  "(prolog_term \<Rightarrow> prolog_term \<Rightarrow> env \<Rightarrow> (bool \<times> env) result)
     \<Rightarrow> (prolog_term \<times> prolog_term) list \<Rightarrow> env \<Rightarrow> (bool \<times> env) result" where
  "unify_args un [] dde = ret (True, dde)"
| "unify_args un ((s, d) # rest) dde =
     bind_r (un s d dde) (\<lambda>(ok, dde').
       if ok then unify_args un rest dde' else ret (False, dde'))"

text \<open>
  \<^verbatim>\<open>_unify(src, srcEnv, dest, destEnv)\<close> returns its verdict and \<^verbatim>\<open>destEnv\<close> as the
  call leaves it; \<^verbatim>\<open>srcEnv\<close> is only read. \<^verbatim>\<open>dde\<close> is a copy of \<^verbatim>\<open>destEnv\<close>,
  merged back by \<^verbatim>\<open>destEnv.update(dde)\<close> when every pair unified. The arguments
  \<open>self_eval\<close> and \<open>self_unify\<close> stand for the calls \<^verbatim>\<open>self.prolog_eval\<close> and
  \<^verbatim>\<open>self._unify\<close>. A term that is neither a variable nor a literal is a predicate.
\<close>

definition unify_body ::
  "(prolog_term \<Rightarrow> env \<Rightarrow> prolog_term option result)
     \<Rightarrow> (prolog_term \<Rightarrow> env \<Rightarrow> prolog_term \<Rightarrow> env \<Rightarrow> (bool \<times> env) result)
     \<Rightarrow> prolog_term \<Rightarrow> env \<Rightarrow> prolog_term \<Rightarrow> env \<Rightarrow> (bool \<times> env) result" where
  "unify_body self_eval self_unify src srcEnv dest destEnv =
     (case src of
        Variable sv \<Rightarrow>
          bind_r (self_eval src srcEnv) (\<lambda>srcVal.
            case srcVal of
              None \<Rightarrow> ret (True, destEnv)
            | Some v \<Rightarrow> self_unify v srcEnv dest destEnv)
      | _ \<Rightarrow>
          (case dest of
             Variable dv \<Rightarrow>
               bind_r (self_eval dest destEnv) (\<lambda>destVal.
                 case destVal of
                   Some v \<Rightarrow> self_unify src srcEnv v destEnv
                 | None \<Rightarrow>
                     bind_r (self_eval src srcEnv) (\<lambda>v.
                       ret (True, destEnv(dv \<mapsto> v))))
           | _ \<Rightarrow>
               if is_Literal src then
                 bind_r (self_eval src srcEnv) (\<lambda>srcVal.
                   bind_r (self_eval dest destEnv) (\<lambda>destVal.
                     ret (srcVal = destVal, destEnv)))
               else if is_Literal dest then ret (False, destEnv)
               else
                 (case (src, dest) of
                    (Predicate sname sargs, Predicate dname dargs) \<Rightarrow>
                      if sname \<noteq> dname then ret (False, destEnv)
                      else if length sargs \<noteq> length dargs then ret (False, destEnv)
                      else
                        bind_r
                          (unify_args (\<lambda>s d dde. self_unify s srcEnv d dde)
                             (zip sargs dargs) destEnv)
                          (\<lambda>(ok, dde).
                            if ok then ret (True, destEnv ++ dde) else ret (False, destEnv))
                  | _ \<Rightarrow> ret (False, destEnv))))"

text \<open>The recursion of \<^verbatim>\<open>_unify\<close> need not end either; it takes the same fuel.\<close>

primrec unify ::
  "PrologRuntime \<Rightarrow> nat \<Rightarrow> prolog_term \<Rightarrow> env \<Rightarrow> prolog_term \<Rightarrow> env
     \<Rightarrow> (bool \<times> env) result" where
  "unify rt 0 = (\<lambda>src srcEnv dest destEnv. None)"
| "unify rt (Suc n) = unify_body (prolog_eval rt n) (unify rt n)"

section \<open>The resolution engine (\<^verbatim>\<open>search\<close>)\<close>

text \<open>
  The state of the main loop: the queue of goal frames (\<^verbatim>\<open>queue.insert(0, x)\<close> puts
  \<open>x\<close> at the head of the list, \<^verbatim>\<open>queue.pop()\<close> takes the last element), the dicts
  recorded as solutions, and the store.
\<close>

record search_state =
  queue :: "PrologGoal list"
  solutions :: "nat list"
  heap :: heap

text \<open>\<^verbatim>\<open>g.inx = g.inx + 1\<close>.\<close>

definition advance :: "PrologGoal \<Rightarrow> PrologGoal" where
  "advance g =
     PrologGoal (goal_head g) (goal_terms g) (goal_parent g) (goal_env g) (goal_inx g + 1)"

text \<open>
  A finished frame (\<^verbatim>\<open>g.inx >= len(g.terms)\<close>): the root records its dict as a
  solution; any other frame resumes a deep copy of its parent, whatever \<^verbatim>\<open>_unify\<close>
  returns. The state passed is the one after \<^verbatim>\<open>queue.pop()\<close>.
\<close>

definition complete_goal ::
  "PrologRuntime \<Rightarrow> nat \<Rightarrow> PrologGoal \<Rightarrow> search_state \<Rightarrow> search_state result" where
  "complete_goal rt d g s =
     (case goal_parent g of
        None \<Rightarrow> ret (s\<lparr>solutions := solutions s @ [goal_env g]\<rparr>)
      | Some gp \<Rightarrow>
          (let (parent, h1) = deepcopy_goal (heap s) gp in
           bind_r (lift (index (goal_terms parent) (goal_inx parent))) (\<lambda>t.
           bind_r (unify rt d (goal_head g) (h1 ! goal_env g) t (h1 ! goal_env parent))
             (\<lambda>(ans, e).
               ret (s\<lparr>queue := advance parent # queue s,
                      heap := h1[goal_env parent := e]\<rparr>)))))"

text \<open>The subgoals \<^verbatim>\<open>is\<close>, \<^verbatim>\<open>cut\<close> and \<^verbatim>\<open>fail\<close>.\<close>

definition special_goal ::
  "PrologRuntime \<Rightarrow> nat \<Rightarrow> PrologGoal \<Rightarrow> prolog_term \<Rightarrow> string \<Rightarrow> search_state
     \<Rightarrow> search_state result" where
  "special_goal rt d g pred name s =
     (if name = ''is'' then
        bind_r (lift (get_args pred)) (\<lambda>args.
        bind_r (lift (index args 0)) (\<lambda>lhs.
        bind_r (prolog_eval rt d lhs (heap s ! goal_env g)) (\<lambda>ques.
        bind_r (lift (index args 1)) (\<lambda>rhs.
        bind_r (prolog_eval rt d rhs (heap s ! goal_env g)) (\<lambda>ans.
          if ques = None then
            bind_r (lift (get_name lhs)) (\<lambda>v.
              ret (s\<lparr>queue := advance g # queue s,
                     heap := (heap s)[goal_env g := (heap s ! goal_env g)(v \<mapsto> ans)]\<rparr>))
          else if ques \<noteq> ans then ret s
          else ret (s\<lparr>queue := advance g # queue s\<rparr>))))))
      else if name = ''cut'' then ret (s\<lparr>queue := [advance g]\<rparr>)
      else ret s)"

text \<open>A registered builtin predicate, called with the goal frame.\<close>

definition builtin_goal :: "builtin \<Rightarrow> PrologGoal \<Rightarrow> search_state \<Rightarrow> search_state result" where
  "builtin_goal b g s =
     bind_r (lift (b g (heap s ! goal_env g))) (\<lambda>(ok, e).
       let s1 = s\<lparr>heap := (heap s)[goal_env g := e]\<rparr>
       in if ok then ret (s1\<lparr>queue := advance g # queue s1\<rparr>) else ret s1)"

text \<open>The children of one candidate clause: one per arm of an \<^verbatim>\<open>or\<close> body, else one.\<close>

fun or_children ::
  "PrologGoal \<Rightarrow> Clause \<Rightarrow> prolog_term list \<Rightarrow> heap \<Rightarrow> (PrologGoal list \<times> heap) result" where
  "or_children g clause [] h = ret ([], h)"
| "or_children g clause (subgoal # rest) h =
     bind_r (lift (get_name subgoal)) (\<lambda>sname.
     bind_r (if sname = ''and'' then lift (get_args subgoal) else ret [subgoal]) (\<lambda>ts.
       let (child, h1) = PrologGoal_init h (head clause) ts (Some g) None
       in bind_r (or_children g clause rest h1) (\<lambda>(cs, h2). ret (child # cs, h2))))"

definition make_children ::
  "PrologGoal \<Rightarrow> Clause \<Rightarrow> heap \<Rightarrow> (PrologGoal list \<times> heap) result" where
  "make_children g clause h =
     (case body clause of
        None \<Rightarrow>
          (let (child, h1) = PrologGoal_init h (head clause) [] (Some g) None
           in ret ([child], h1))
      | Some b \<Rightarrow>
          bind_r (lift (get_name b)) (\<lambda>bname.
            if bname = ''or'' then
              bind_r (lift (get_args b)) (\<lambda>arms. or_children g clause arms h)
            else
              bind_r (if bname = ''and'' then lift (get_args b) else ret [b]) (\<lambda>ts.
                let (child, h1) = PrologGoal_init h (head clause) ts (Some g) None
                in ret ([child], h1))))"

text \<open>\<^verbatim>\<open>for child in children\<close>: a child whose head unifies is put into the queue.\<close>

fun queue_children ::
  "PrologRuntime \<Rightarrow> nat \<Rightarrow> PrologGoal \<Rightarrow> prolog_term \<Rightarrow> Clause \<Rightarrow> PrologGoal list
     \<Rightarrow> search_state \<Rightarrow> search_state result" where
  "queue_children rt d g pred clause [] s = ret s"
| "queue_children rt d g pred clause (child # rest) s =
     bind_r (unify rt d pred (heap s ! goal_env g) (head clause) (heap s ! goal_env child))
       (\<lambda>(ans, e).
         let s1 = s\<lparr>heap := (heap s)[goal_env child := e]\<rparr>
         in queue_children rt d g pred clause rest
              (if ans then s1\<lparr>queue := child # queue s1\<rparr> else s1))"

text \<open>\<^verbatim>\<open>for clause in clauses\<close>: a clause of another arity is skipped.\<close>

fun try_clauses ::
  "PrologRuntime \<Rightarrow> nat \<Rightarrow> PrologGoal \<Rightarrow> prolog_term \<Rightarrow> Clause list \<Rightarrow> search_state
     \<Rightarrow> search_state result" where
  "try_clauses rt d g pred [] s = ret s"
| "try_clauses rt d g pred (clause # rest) s =
     bind_r (lift (get_args (head clause))) (\<lambda>hargs.
     bind_r (lift (get_args pred)) (\<lambda>pargs.
       if length hargs \<noteq> length pargs then try_clauses rt d g pred rest s
       else
         bind_r (make_children g clause (heap s)) (\<lambda>(children, h1).
         bind_r (queue_children rt d g pred clause children (s\<lparr>heap := h1\<rparr>)) (\<lambda>s1.
           try_clauses rt d g pred rest s1))))"

text \<open>A subgoal that is neither special nor a builtin: the rule database.\<close>

definition lookup_goal ::
  "PrologRuntime \<Rightarrow> nat \<Rightarrow> PrologGoal \<Rightarrow> prolog_term \<Rightarrow> string \<Rightarrow> search_state
     \<Rightarrow> search_state result" where
  "lookup_goal rt d g pred name s =
     bind_r (lift (fst (lookup (db rt) name None))) (\<lambda>clauses.
       if length clauses = 0 then
         raise (PrologRuntimeError
           (''Failed to find predicate '' @ [CHR 0x22] @ name @ [CHR 0x22] @ '' !''))
       else try_clauses rt d g pred clauses s)"

text \<open>
  One pass through the body of \<^verbatim>\<open>while queue\<close>, for a queue that is not empty:
  \<^verbatim>\<open>g = queue.pop()\<close> takes the last frame.
\<close>

definition step :: "PrologRuntime \<Rightarrow> nat \<Rightarrow> search_state \<Rightarrow> search_state result" where
  "step rt d s =
     (let g = last (queue s); s0 = s\<lparr>queue := butlast (queue s)\<rparr> in
      if goal_inx g \<ge> length (goal_terms g) then complete_goal rt d g s0
      else
        (let pred = goal_terms g ! goal_inx g in
         bind_r (lift (get_name pred)) (\<lambda>name.
           if name \<in> set [''is'', ''cut'', ''fail''] then special_goal rt d g pred name s0
           else
             (case builtins rt name of
                Some b \<Rightarrow> builtin_goal b g s0
              | None \<Rightarrow> lookup_goal rt d g pred name s0))))"

text \<open>
  The loop can run forever, so it takes fuel: the second number bounds the passes, the
  first is the depth given to each call of \<^verbatim>\<open>_unify\<close> and \<^verbatim>\<open>prolog_eval\<close>.
\<close>

fun search_loop ::
  "PrologRuntime \<Rightarrow> nat \<Rightarrow> nat \<Rightarrow> search_state \<Rightarrow> search_state result" where
  "search_loop rt d 0 s = (if queue s = [] then ret s else None)"
| "search_loop rt d (Suc n) s =
     (if queue s = [] then ret s else bind_r (step rt d s) (search_loop rt d n))"

text \<open>
  \<^verbatim>\<open>search(clause, env)\<close>: \<open>envref\<close> is the address of the caller's dict. The result
  is the list of solutions (the values of the recorded dicts) and the store after the
  call.
\<close>

definition search ::
  "PrologRuntime \<Rightarrow> nat \<Rightarrow> nat \<Rightarrow> heap \<Rightarrow> Clause \<Rightarrow> nat \<Rightarrow> (env list \<times> heap) result" where
  "search rt d n h clause envref =
     (case body clause of
        None \<Rightarrow> ret ([Map.empty], h)
      | Some b \<Rightarrow>
          (case b of
             Predicate bname bargs \<Rightarrow>
               (let terms = (if bname = ''and'' then bargs else [b]);
                    (g, h1) = PrologGoal_init h (head clause) terms None (Some envref)
                in bind_r (search_loop rt d n \<lparr>queue = [g], solutions = [], heap = h1\<rparr>)
                     (\<lambda>s. ret (map (\<lambda>r. heap s ! r) (solutions s), heap s)))
           | _ \<Rightarrow> raise (PrologRuntimeError ''search: expected predicate in body'')))"

text \<open>The solutions alone.\<close>

definition solutions_of :: "(env list \<times> heap) result \<Rightarrow> env list result" where
  "solutions_of r = map_option (map_sum id fst) r"


section \<open>A depth-first reference resolver\<close>

text \<open>
  The specification describes the main loop as a stack: the goal inserted last is popped
  first, the clauses of the database are attempted in their order, and solutions come in
  the order of a depth-first, left-to-right resolver. This second resolver follows those
  words, to be compared with \<open>search\<close>: it takes the frame on top of the stack (the head
  of the list), processes it exactly as \<open>step\<close> processes a frame, and puts the frames
  this produces on top of the stack, the first produced on top. A \<^verbatim>\<open>cut\<close> discards the
  rest of the stack.
\<close>

definition at_cut :: "PrologGoal \<Rightarrow> bool" where
  "at_cut g =
     (goal_inx g < length (goal_terms g) \<and>
      get_name (goal_terms g ! goal_inx g) = Inr ''cut'')"




section \<open>Example programs\<close>

text \<open>
  Stand-ins for the absent builtin implementations, to state examples on a concrete
  runtime. No example below calls a builtin.
\<close>

definition stub_builtin :: builtin where
  "stub_builtin g e = Inl (PrologRuntimeError ''builtin not available'')"

definition stub_function :: builtin_function where
  "stub_function t e = Inl (PrologRuntimeError ''builtin function not available'')"

definition stub_impls :: builtin_impls where
  "stub_impls =
     \<lparr>builtin_larger = stub_builtin, builtin_smaller = stub_builtin,
      builtin_smaller_or_equal = stub_builtin, builtin_larger_or_equal = stub_builtin,
      builtin_non_equal = stub_builtin, builtin_equal = stub_builtin,
      builtin_sub_string = stub_builtin, builtin_date_time_stamp = stub_builtin,
      builtin_stamp_date_time = stub_builtin, builtin_get_time = stub_builtin,
      builtin_write = stub_builtin, builtin_nl = stub_builtin,
      builtin_list_contains = stub_builtin,
      builtin_format_str = stub_function, builtin_isoformat = stub_function,
      builtin_list_max = stub_function, builtin_list_min = stub_function,
      builtin_list_sum = stub_function, builtin_list_avg = stub_function\<rparr>"

text \<open>A fresh database, and storing a list of clauses in order.\<close>

definition LogicDB_init :: LogicDB where
  "LogicDB_init = \<lparr>session = [], overlayZ = Map.empty\<rparr>"

fun store_all :: "LogicDB \<Rightarrow> string \<Rightarrow> Clause list \<Rightarrow> error + LogicDB" where
  "store_all d modl [] = Inr d"
| "store_all d modl (c # cs) =
     (case store d modl c of Inl e \<Rightarrow> Inl e | Inr d' \<Rightarrow> store_all d' modl cs)"

fun assertz_all :: "LogicDBOverlay \<Rightarrow> Clause list \<Rightarrow> error + LogicDBOverlay" where
  "assertz_all ov [] = Inr ov"
| "assertz_all ov (c # cs) =
     (case assertz ov c of Inl e \<Rightarrow> Inl e | Inr ov' \<Rightarrow> assertz_all ov' cs)"

definition db_of :: "Clause list \<Rightarrow> LogicDB" where
  "db_of cs = (case store_all LogicDB_init ''example'' cs of Inr d \<Rightarrow> d | Inl e \<Rightarrow> LogicDB_init)"

definition atom :: "string \<Rightarrow> prolog_term" where
  "atom n = Predicate n []"

definition fact :: "prolog_term \<Rightarrow> Clause" where
  "fact h = \<lparr>head = h, body = None\<rparr>"

definition query :: "prolog_term \<Rightarrow> Clause" where
  "query b = \<lparr>head = atom ''query'', body = Some b\<rparr>"

text \<open>
  The database of the scenarios:
  \<^verbatim>\<open>parent(tom, bob). parent(bob, ann). parent(bob, pat).
  grandparent(X,Z) :- and(parent(X,Y), parent(Y,Z)).\<close>
\<close>

definition family_clauses :: "Clause list" where
  "family_clauses =
     [fact (Predicate ''parent'' [atom ''tom'', atom ''bob'']),
      fact (Predicate ''parent'' [atom ''bob'', atom ''ann'']),
      fact (Predicate ''parent'' [atom ''bob'', atom ''pat'']),
      \<lparr>head = Predicate ''grandparent'' [Variable ''X'', Variable ''Z''],
       body = Some (Predicate ''and''
         [Predicate ''parent'' [Variable ''X'', Variable ''Y''],
          Predicate ''parent'' [Variable ''Y'', Variable ''Z'']])\<rparr>]"

definition family_rt :: PrologRuntime where
  "family_rt = PrologRuntime_init stub_impls (db_of family_clauses)"



text \<open>
  The query \<^verbatim>\<open>parent(bob, Z)\<close> on the family database after the first pass of the
  main loop: the root frame has been expanded, and the queue holds the frames of the two
  clauses that match, \<^verbatim>\<open>parent(bob, ann)\<close> inserted first and \<^verbatim>\<open>parent(bob, pat)\<close>
  inserted last. Address 0 is the caller's dict, 1 the root's, 2 the dict of the child
  for \<^verbatim>\<open>parent(tom, bob)\<close>, which did not unify, 3 and 4 those of the two children queued.
\<close>

definition bob_root :: PrologGoal where
  "bob_root =
     PrologGoal (atom ''query'') [Predicate ''parent'' [atom ''bob'', Variable ''Z'']] None 1 0"

definition bob_ann :: PrologGoal where
  "bob_ann = PrologGoal (Predicate ''parent'' [atom ''bob'', atom ''ann'']) [] (Some bob_root) 3 0"

definition bob_pat :: PrologGoal where
  "bob_pat = PrologGoal (Predicate ''parent'' [atom ''bob'', atom ''pat'']) [] (Some bob_root) 4 0"

definition bob_pending :: search_state where
  "bob_pending =
     \<lparr>queue = [bob_pat, bob_ann], solutions = [],
      heap = [Map.empty, Map.empty, Map.empty, Map.empty, Map.empty]\<rparr>"

section \<open>Notions used in the statements\<close>

text \<open>
  The clauses of a list whose head has the name \<open>n\<close>; the entries a dict of clause
  lists holds for \<open>n\<close>; and the persisted clauses of a database whose row is stored
  under the head name \<open>n\<close>, in insertion order.
\<close>

definition named :: "string \<Rightarrow> Clause \<Rightarrow> bool" where
  "named n c = (get_name (head c) = Inr n)"

definition entries :: "(string \<rightharpoonup> Clause list) \<Rightarrow> string \<Rightarrow> Clause list" where
  "entries m n = (case m n of None \<Rightarrow> [] | Some cs \<Rightarrow> cs)"

definition persisted :: "LogicDB \<Rightarrow> string \<Rightarrow> Clause list" where
  "persisted d n = map orm_prolog (filter (\<lambda>ormc. orm_head ormc = n) (session d))"

text \<open>
  \<open>fresh_from n0 s\<close>: the store has at least \<open>n0\<close> dicts and every frame in the queue
  owns a dict allocated at an address from \<open>n0\<close> on.
\<close>

definition fresh_from :: "nat \<Rightarrow> search_state \<Rightarrow> bool" where
  "fresh_from n0 s = (n0 \<le> length (heap s) \<and> list_all (\<lambda>g. n0 \<le> goal_env g) (queue s))"

text \<open>
  Notions for the symmetry of unification. A term is plain when no predicate in it has
  the name of an arithmetic operator or of a builtin function, so that evaluating it
  computes nothing. \<open>vars t\<close> lists the occurrences of variables that unification and
  evaluation can reach (they do not look into list literals). \<open>matches a b\<close> is the
  outcome expected of unifying two plain terms without repeated variables: a variable
  on either side matches anything, a literal matches an equal literal, and predicates
  match when names and arities agree and the arguments match pairwise. \<open>unbound e v\<close>:
  the dict \<open>e\<close> has no key \<open>v\<close> or holds \<^verbatim>\<open>None\<close> for it.
\<close>

fun plain :: "PrologRuntime \<Rightarrow> prolog_term \<Rightarrow> bool" where
  "plain rt (Predicate n as) =
     (unary_operators n = None \<and> binary_operators n = None \<and> builtin_functions rt n = None
      \<and> list_all (plain rt) as)"
| "plain rt t = True"

fun vars :: "prolog_term \<Rightarrow> string list" where
  "vars (Variable v) = [v]"
| "vars (Predicate n as) = concat (map vars as)"
| "vars t = []"

fun matches :: "prolog_term \<Rightarrow> prolog_term \<Rightarrow> bool"
  and matches_list :: "prolog_term list \<Rightarrow> prolog_term list \<Rightarrow> bool" where
  "matches (Variable v) t = True"
| "matches t (Variable v) = True"
| "matches (Predicate n as) (Predicate m bs) = (n = m \<and> matches_list as bs)"
| "matches a b = (is_Literal a \<and> a = b)"
| "matches_list [] [] = True"
| "matches_list (a # as) (b # bs) = (matches a b \<and> matches_list as bs)"
| "matches_list as bs = False"

definition unbound :: "env \<Rightarrow> string \<Rightarrow> bool" where
  "unbound e v = (e v = None \<or> e v = Some None)"








section \<open>Fuel\<close>

text \<open>\<open>extends a b\<close>: the run \<open>b\<close>, with more fuel, agrees with \<open>a\<close> where \<open>a\<close> returned.\<close>

definition extends :: "'a option \<Rightarrow> 'a option \<Rightarrow> bool" where
  "extends a b = (a = None \<or> a = b)"

section \<open>Properties\<close>

text \<open>The definitions that a run of an example unfolds.\<close>

lemmas run_defs =
  search_def solutions_of_def query_def atom_def fact_def PrologGoal_init_def alloc_def
  step_def special_goal_def builtin_goal_def lookup_goal_def complete_goal_def make_children_def
  unify_body_def prolog_eval_body_def
  ret_def bind_r_def lift_def raise_def lookup_def index_def advance_def
  unary_operators_def binary_operators_def Let_def

lemmas runtime_defs =
  PrologRuntime_init_def register_builtin_def register_builtin_function_def Let_def

lemmas family_defs =
  family_rt_def family_clauses_def db_of_def store_def LogicDB_init_def runtime_defs

subsection \<open>More fuel never changes a result\<close>

lemma extends_refl [simp, intro!]: "extends a a"
  by (simp add: extends_def)

lemma extends_None [simp, intro!]: "extends None b"
  by (simp add: extends_def)

lemma extends_trans: "extends a b \<Longrightarrow> extends b c \<Longrightarrow> extends a c"
  by (auto simp: extends_def)

lemma extends_bind:
  "extends m m' \<Longrightarrow> (\<And>v. extends (f v) (f' v)) \<Longrightarrow> extends (bind_r m f) (bind_r m' f')"
  by (auto simp: extends_def bind_r_def split: option.splits sum.splits)

lemma extends_eval_args:
  "(\<And>a. extends (f a) (f' a)) \<Longrightarrow> extends (eval_args f xs) (eval_args f' xs)"
  by (induction xs) (auto intro!: extends_bind split: option.splits)

lemma extends_unify_args:
  "(\<And>a b e. extends (f a b e) (f' a b e)) \<Longrightarrow> extends (unify_args f ps e) (unify_args f' ps e)"
  by (induction ps arbitrary: e) (auto intro!: extends_bind split: option.splits)

lemma prolog_eval_body_mono:
  assumes "\<And>t e. extends (ev t e) (ev' t e)"
  shows "extends (prolog_eval_body rt ev term env) (prolog_eval_body rt ev' term env)"
  unfolding prolog_eval_body_def
  by (auto intro!: extends_bind extends_eval_args assms 
        split: option.splits prolog_term.splits)

lemma prolog_eval_Suc: "extends (prolog_eval rt n t env) (prolog_eval rt (Suc n) t env)"
proof (induction n arbitrary: t env)
  case 0
  show ?case by simp
next
  case (Suc n)
  show ?case
    using prolog_eval_body_mono [of "prolog_eval rt n" "prolog_eval rt (Suc n)", OF Suc.IH]
    by simp
qed

lemma unify_body_mono:
  assumes "\<And>t e. extends (ev t e) (ev' t e)"
    and "\<And>s se d de. extends (un s se d de) (un' s se d de)"
  shows "extends (unify_body ev un src se dest de) (unify_body ev' un' src se dest de)"
  unfolding unify_body_def
  by (auto intro!: extends_bind extends_unify_args assms
        split: option.splits prolog_term.splits)

lemma unify_Suc: "extends (unify rt n s se d de) (unify rt (Suc n) s se d de)"
proof (induction n arbitrary: s se d de)
  case 0
  show ?case by simp
next
  case (Suc n)
  show ?case
    using unify_body_mono [of "prolog_eval rt n" "prolog_eval rt (Suc n)" "unify rt n" "unify rt (Suc n)",
       OF prolog_eval_Suc Suc.IH]
    by simp
qed


lemma prolog_eval_mono: "n \<le> m \<Longrightarrow> extends (prolog_eval rt n t env) (prolog_eval rt m t env)"
proof (induction m)
  case 0
  then show ?case by simp
next
  case (Suc m)
  show ?case
  proof (cases "n = Suc m")
    case True
    then show ?thesis by simp
  next
    case False
    with Suc.prems have "n \<le> m" by simp
    from extends_trans [OF Suc.IH [OF this] prolog_eval_Suc] show ?thesis .
  qed
qed

lemma unify_mono: "n \<le> m \<Longrightarrow> extends (unify rt n s se d de) (unify rt m s se d de)"
proof (induction m)
  case 0
  then show ?case by simp
next
  case (Suc m)
  show ?case
  proof (cases "n = Suc m")
    case True
    then show ?thesis by simp
  next
    case False
    with Suc.prems have "n \<le> m" by simp
    from extends_trans [OF Suc.IH [OF this] unify_Suc] show ?thesis .
  qed
qed

lemma complete_goal_mono:
  "d \<le> d' \<Longrightarrow> extends (complete_goal rt d g s) (complete_goal rt d' g s)"
  unfolding complete_goal_def
  by (auto intro!: extends_bind unify_mono split: option.splits prod.splits)

lemma special_goal_mono:
  "d \<le> d' \<Longrightarrow> extends (special_goal rt d g pred name s) (special_goal rt d' g pred name s)"
  unfolding special_goal_def
  by (auto intro!: extends_bind prolog_eval_mono)

lemma queue_children_mono:
  "d \<le> d' \<Longrightarrow>
   extends (queue_children rt d g pred clause cs s) (queue_children rt d' g pred clause cs s)"
  by (induction cs arbitrary: s) (auto intro!: extends_bind unify_mono simp: Let_def)

lemma try_clauses_mono:
  "d \<le> d' \<Longrightarrow> extends (try_clauses rt d g pred cs s) (try_clauses rt d' g pred cs s)"
  by (induction cs arbitrary: s) (auto intro!: extends_bind queue_children_mono simp: Let_def)

lemma lookup_goal_mono:
  "d \<le> d' \<Longrightarrow> extends (lookup_goal rt d g pred name s) (lookup_goal rt d' g pred name s)"
  unfolding lookup_goal_def
  by (auto intro!: extends_bind try_clauses_mono)

lemma step_mono: "d \<le> d' \<Longrightarrow> extends (step rt d s) (step rt d' s)"
  unfolding step_def Let_def
  by (auto intro!: extends_bind complete_goal_mono special_goal_mono lookup_goal_mono
        split: option.splits)

lemma search_loop_mono:
  "d \<le> d' \<Longrightarrow> n \<le> n' \<Longrightarrow> extends (search_loop rt d n s) (search_loop rt d' n' s)"
proof (induction n arbitrary: n' s)
  case 0
  then show ?case by (cases n') auto
next
  case (Suc n)
  then obtain m where n': "n' = Suc m" and "n \<le> m" by (cases n') auto
  with Suc show ?case
    by (auto intro!: extends_bind step_mono)
qed

lemma search_mono:
  "d \<le> d' \<Longrightarrow> n \<le> n' \<Longrightarrow> extends (search rt d n h c e) (search rt d' n' h c e)"
  unfolding search_def Let_def
  by (auto intro!: extends_bind search_loop_mono split: option.splits prolog_term.splits prod.splits)

lemma search_more_fuel:
  "search rt d n h c e = Some r \<Longrightarrow> search rt (d + k) (n + j) h c e = Some r"
  using search_mono [of d "d + k" n "n + j" rt h c e] by (simp add: extends_def)


subsection \<open>The arithmetic evaluator\<close>

text \<open>
  Claim C5, as amended. For a predicate whose name is a registered binary operator
  (\<^verbatim>\<open>+\<close>, \<^verbatim>\<open>-\<close>, \<^verbatim>\<open>*\<close>, \<^verbatim>\<open>/\<close>, \<^verbatim>\<open>mod\<close>), whose arity is not 2 and which is
  not an application of a unary operator to one argument, \<open>prolog_eval\<close> returns
  \<^verbatim>\<open>None\<close>, whatever its arguments are: the guard \<^verbatim>\<open>if len(term.args) != 2: return None\<close>
  comes before any argument is evaluated. It does not return the predicate with its
  arguments evaluated.
\<close>

theorem binary_operator_wrong_arity:
  assumes "binary_operators name \<noteq> None"
    and "length args \<noteq> 2"
    and "\<not> (length args = 1 \<and> unary_operators name \<noteq> None)"
  shows "prolog_eval rt (Suc n) (Predicate name args) env = ret None"
  using assms by (auto simp: prolog_eval_body_def)

text \<open>The theorem at \<^verbatim>\<open>*(1, 2, 3)\<close>.\<close>

theorem binary_operator_wrong_arity_witness:
  "binary_operators ''*'' \<noteq> None
   \<and> length [NumberLiteral 1, NumberLiteral 2, NumberLiteral 3] \<noteq> 2
   \<and> \<not> (length [NumberLiteral 1, NumberLiteral 2, NumberLiteral 3] = 1 \<and> unary_operators ''*'' \<noteq> None)
   \<and> prolog_eval family_rt (Suc 0)
        (Predicate ''*'' [NumberLiteral 1, NumberLiteral 2, NumberLiteral 3]) Map.empty = ret None"
  using binary_operator_wrong_arity
    [of "''*''" "[NumberLiteral 1, NumberLiteral 2, NumberLiteral 3]" family_rt 0 Map.empty]
  by (simp add: binary_operators_def unary_operators_def)

text \<open>
  Claim C5 as stated fails at \<^verbatim>\<open>*(1, 2, 3)\<close>: every argument evaluates to a value that
  is not \<^verbatim>\<open>None\<close>, and the result is \<^verbatim>\<open>None\<close>, not \<^verbatim>\<open>Predicate('*', [1, 2, 3])\<close>.
\<close>

theorem binary_operator_wrong_arity_counterexample:
  "eval_args (\<lambda>arg. prolog_eval family_rt (Suc 0) arg Map.empty)
     [NumberLiteral 1, NumberLiteral 2, NumberLiteral 3]
     = ret (Some [NumberLiteral 1, NumberLiteral 2, NumberLiteral 3])
   \<and> prolog_eval family_rt (Suc (Suc 0))
        (Predicate ''*'' [NumberLiteral 1, NumberLiteral 2, NumberLiteral 3]) Map.empty
     \<noteq> ret (Some (Predicate ''*'' [NumberLiteral 1, NumberLiteral 2, NumberLiteral 3]))
   \<and> prolog_eval family_rt (Suc (Suc 0))
        (Predicate ''*'' [NumberLiteral 1, NumberLiteral 2, NumberLiteral 3]) Map.empty
     = ret None"
  by (simp add: prolog_eval_body_def binary_operators_def unary_operators_def ret_def bind_r_def)


subsection \<open>Unification leaves the destination alone when it fails\<close>

lemma unify_body_failure:
  assumes "unify_body ev un src se dest de = Some (Inr (False, e))"
    and "\<And>s se d de e. un s se d de = Some (Inr (False, e)) \<Longrightarrow> e = de"
  shows "e = de"
  using assms
  unfolding unify_body_def
  by (auto simp: bind_r_def ret_def split: option.splits sum.splits prolog_term.splits if_splits prod.splits)

text \<open>
  Claim C6. Every call \<^verbatim>\<open>_unify(src, srcEnv, dest, destEnv)\<close> that returns
  \<^verbatim>\<open>False\<close> leaves \<^verbatim>\<open>destEnv\<close> exactly as it was before the call: the bindings of
  the argument pairs that did unify went to the scratch copy \<^verbatim>\<open>dde\<close>, which is merged
  back only when every pair has unified.
\<close>

theorem unify_failure_atomic:
  "unify rt n src srcEnv dest destEnv = Some (Inr (False, e)) \<Longrightarrow> e = destEnv"
proof (induction n arbitrary: src srcEnv dest destEnv e)
  case 0
  then show ?case by simp
next
  case (Suc n)
  from Suc.prems have "unify_body (prolog_eval rt n) (unify rt n) src srcEnv dest destEnv = Some (Inr (False, e))"
    by simp
  then show ?case
    by (rule unify_body_failure) (rule Suc.IH)
qed

text \<open>
  The theorem at \<^verbatim>\<open>f(a, b)\<close> against \<^verbatim>\<open>f(X, c)\<close>: the first pair binds \<^verbatim>\<open>X\<close> in
  the scratch copy, the second pair fails, and the destination is still empty.
\<close>

theorem unify_failure_atomic_witness:
  "unify family_rt (Suc (Suc (Suc 0)))
     (Predicate ''f'' [atom ''a'', atom ''b'']) Map.empty
     (Predicate ''f'' [Variable ''X'', atom ''c'']) Map.empty
   = Some (Inr (False, Map.empty))
   \<and> unify_args (\<lambda>s d dde. unify family_rt (Suc (Suc 0)) s Map.empty d dde)
       [(atom ''a'', Variable ''X''), (atom ''b'', atom ''c'')] Map.empty
     = Some (Inr (False, [''X'' \<mapsto> Some (atom ''a'')]))"
  using unify_failure_atomic [of family_rt "Suc (Suc (Suc 0))"
     "Predicate ''f'' [atom ''a'', atom ''b'']" Map.empty
     "Predicate ''f'' [Variable ''X'', atom ''c'']" Map.empty]
  by (simp add: unify_body_def prolog_eval_body_def atom_def bind_r_def ret_def
        unary_operators_def binary_operators_def family_rt_def runtime_defs)

subsection \<open>Lookup through an overlay\<close>

lemma store_persisted:
  "store d modl c = Inr d' \<Longrightarrow> persisted d' n = persisted d n @ filter (named n) [c]"
  by (auto simp: store_def persisted_def named_def split: sum.splits)

lemma store_all_persisted:
  "store_all d modl cs = Inr d' \<Longrightarrow> persisted d' n = persisted d n @ filter (named n) cs"
proof (induction cs arbitrary: d)
  case Nil
  then show ?case by simp
next
  case (Cons c cs)
  from Cons.prems obtain d1 where s1: "store d modl c = Inr d1" and s2: "store_all d1 modl cs = Inr d'"
    by (auto split: sum.splits)
  from Cons.IH [OF s2] store_persisted [OF s1, of n] show ?case by simp
qed

lemma assertz_entries:
  "assertz ov c = Inr ov' \<Longrightarrow>
   entries (d_assertz ov') n = entries (d_assertz ov) n @ filter (named n) [c]
   \<and> d_retracted ov' = d_retracted ov"
  by (auto simp: assertz_def entries_def named_def split: sum.splits option.splits)

lemma assertz_all_entries:
  "assertz_all ov cs = Inr ov' \<Longrightarrow>
   entries (d_assertz ov') n = entries (d_assertz ov) n @ filter (named n) cs
   \<and> d_retracted ov' = d_retracted ov"
proof (induction cs arbitrary: ov)
  case Nil
  then show ?case by simp
next
  case (Cons c cs)
  from Cons.prems obtain ov1 where s1: "assertz ov c = Inr ov1" and s2: "assertz_all ov1 cs = Inr ov'"
    by (auto split: sum.splits)
  from Cons.IH [OF s2] assertz_entries [OF s1, of n] show ?case by simp
qed

lemma lookup_overlay:
  "d_retracted ov = Map.empty \<Longrightarrow>
   lookup d n (Some ov) = (Inr (persisted d n @ entries (d_assertz ov) n), d)"
  by (simp add: lookup_def do_filter_def persisted_def entries_def split: option.splits)

text \<open>
  Claim C8. For every name \<open>n\<close> and every overlay whose retracted map is empty,
  \<^verbatim>\<open>lookup(n, overlay)\<close> returns the persisted clauses whose head name is \<open>n\<close>, in
  insertion order, followed by the overlay's \<^verbatim>\<open>assertz\<close> entries for \<open>n\<close> in the order
  they were asserted, and it leaves the database as it was. The database \<open>d\<close> is any
  database \<open>d0\<close> after storing the clauses \<open>cs\<close> in order, the overlay \<open>ov\<close> any overlay
  \<open>ov0\<close> without retractions after asserting the clauses \<open>acs\<close> in order.
\<close>

theorem lookup_database_then_overlay:
  assumes "d_retracted ov0 = Map.empty"
    and "store_all d0 modl cs = Inr d"
    and "assertz_all ov0 acs = Inr ov"
  shows "lookup d n (Some ov) =
     (Inr (persisted d0 n @ filter (named n) cs
           @ entries (d_assertz ov0) n @ filter (named n) acs), d)"
proof -
  from assertz_all_entries [OF assms(3)] assms(1)
  have r: "d_retracted ov = Map.empty"
    and e: "entries (d_assertz ov) n = entries (d_assertz ov0) n @ filter (named n) acs"
    by simp_all
  from lookup_overlay [OF r] store_all_persisted [OF assms(2)] e show ?thesis by simp
qed

text \<open>
  The theorem on the family database with an overlay that asserts
  \<^verbatim>\<open>parent(pat, jim)\<close>, \<^verbatim>\<open>likes(jim, tom)\<close> and \<^verbatim>\<open>parent(ann, joe)\<close>.
\<close>

theorem lookup_database_then_overlay_witness:
  "d_retracted LogicDBOverlay_init = Map.empty
   \<and> (\<exists>d ov.
        store_all LogicDB_init ''family'' family_clauses = Inr d
      \<and> assertz_all LogicDBOverlay_init
          [fact (Predicate ''parent'' [atom ''pat'', atom ''jim'']),
           fact (Predicate ''likes'' [atom ''jim'', atom ''tom'']),
           fact (Predicate ''parent'' [atom ''ann'', atom ''joe''])] = Inr ov
      \<and> lookup d ''parent'' (Some ov) =
          (Inr [fact (Predicate ''parent'' [atom ''tom'', atom ''bob'']),
                fact (Predicate ''parent'' [atom ''bob'', atom ''ann'']),
                fact (Predicate ''parent'' [atom ''bob'', atom ''pat'']),
                fact (Predicate ''parent'' [atom ''pat'', atom ''jim'']),
                fact (Predicate ''parent'' [atom ''ann'', atom ''joe''])], d))"
proof -
  have r: "d_retracted LogicDBOverlay_init = Map.empty"
    by (simp add: LogicDBOverlay_init_def)
  obtain d where d: "store_all LogicDB_init ''family'' family_clauses = Inr d"
    by (simp add: family_clauses_def store_def fact_def atom_def)
  obtain ov where ov: "assertz_all LogicDBOverlay_init
          [fact (Predicate ''parent'' [atom ''pat'', atom ''jim'']),
           fact (Predicate ''likes'' [atom ''jim'', atom ''tom'']),
           fact (Predicate ''parent'' [atom ''ann'', atom ''joe''])] = Inr ov"
    by (simp add: assertz_def fact_def atom_def LogicDBOverlay_init_def)
  from lookup_database_then_overlay [OF r d ov, of "''parent''"] r d ov
  show ?thesis
    by (simp add: persisted_def entries_def named_def LogicDB_init_def LogicDBOverlay_init_def
          family_clauses_def fact_def atom_def)
qed

subsection \<open>Running the examples\<close>

lemma solutions_more_fuel:
  assumes "solutions_of (search rt d n h c e) = Some r"
  shows "solutions_of (search rt (d + k) (n + j) h c e) = Some r"
proof -
  from assms obtain x where x: "search rt d n h c e = Some x"
    by (auto simp: solutions_of_def)
  from search_more_fuel [OF x, of k j] x assms show ?thesis
    by (simp add: solutions_of_def)
qed

subsection \<open>Clauses of another arity\<close>

lemma try_clauses_skip:
  "\<forall>c \<in> set cs. \<exists>hn hargs. head c = Predicate hn hargs \<and> length hargs \<noteq> length args \<Longrightarrow>
   try_clauses rt d g (Predicate name args) cs s = ret s"
  by (induction cs) (auto simp: bind_r_def lift_def)

text \<open>
  Claim C10. When the lookup for the name of a subgoal returns at least one clause and
  no returned clause has a head of the subgoal's arity, the pass of the main loop raises
  no error: every candidate is skipped, no child is queued, no solution is recorded and
  the frame is gone from the queue.
\<close>

theorem arity_mismatch_skips_all:
  assumes "queue s = q @ [g]"
    and "goal_inx g < length (goal_terms g)"
    and "goal_terms g ! goal_inx g = Predicate name args"
    and "name \<notin> set [''is'', ''cut'', ''fail'']"
    and "builtins rt name = None"
    and "fst (lookup (db rt) name None) = Inr clauses"
    and "clauses \<noteq> []"
    and "\<forall>c \<in> set clauses. \<exists>hn hargs. head c = Predicate hn hargs \<and> length hargs \<noteq> length args"
  shows "step rt d s = ret (s\<lparr>queue := q\<rparr>)"
  using assms try_clauses_skip [OF assms(8), of rt d g name "s\<lparr>queue := q\<rparr>"]
  by (simp add: step_def lookup_goal_def bind_r_def lift_def)

text \<open>
  The theorem at the query \<^verbatim>\<open>parent(tom)\<close> on the family database, whose \<^verbatim>\<open>parent\<close>
  clauses all have arity 2; the whole search returns no solution and no error.
\<close>

theorem arity_mismatch_skips_all_witness:
  "step family_rt (Suc 0)
     \<lparr>queue = [PrologGoal (atom ''query'') [Predicate ''parent'' [atom ''tom'']] None 1 0],
      solutions = [], heap = [Map.empty, Map.empty]\<rparr>
   = ret \<lparr>queue = [], solutions = [], heap = [Map.empty, Map.empty]\<rparr>
   \<and> search family_rt (Suc 0) (Suc 0) [Map.empty] (query (Predicate ''parent'' [atom ''tom''])) 0
      = ret ([], [Map.empty, Map.empty])"
proof -
  let ?g = "PrologGoal (atom ''query'') [Predicate ''parent'' [atom ''tom'']] None 1 0"
  let ?s = "\<lparr>queue = [?g], solutions = [], heap = [Map.empty, Map.empty]\<rparr>"
  have l: "fst (lookup (db family_rt) ''parent'' None) =
      Inr [fact (Predicate ''parent'' [atom ''tom'', atom ''bob'']),
           fact (Predicate ''parent'' [atom ''bob'', atom ''ann'']),
           fact (Predicate ''parent'' [atom ''bob'', atom ''pat''])]"
    by (simp add: family_defs lookup_def fact_def atom_def)
  have st: "step family_rt (Suc 0) ?s = ret (?s\<lparr>queue := []\<rparr>)"
    by (rule arity_mismatch_skips_all [where q = "[]" and g = ?g and name = "''parent''"
          and args = "[atom ''tom'']", OF _ _ _ _ _ l])
       (simp_all add: family_defs fact_def)
  then show ?thesis
    by (simp add: search_def query_def PrologGoal_init_def alloc_def ret_def bind_r_def atom_def)
qed

subsection \<open>\<^verbatim>\<open>is\<close> with a right-hand side that does not evaluate\<close>

lemma is_run:
  "search (PrologRuntime_init bi d) 2 2 [Map.empty]
      (query (Predicate ''is'' [Variable ''X'', Predicate ''+'' [atom ''a'', NumberLiteral 1]])) 0
   = ret ([[''X'' \<mapsto> None]], [Map.empty, [''X'' \<mapsto> None]])"
  by (simp add: run_defs runtime_defs eval_nat_numeral)

text \<open>
  Claim C4, as amended. For the query \<^verbatim>\<open>is(X, +(a,1))\<close>, with \<^verbatim>\<open>a\<close> an atom and
  \<^verbatim>\<open>X\<close> unbound, the evaluator returns \<^verbatim>\<open>None\<close> for the right-hand side, and the
  \<^verbatim>\<open>is\<close> subgoal, whose left-hand side evaluated to \<^verbatim>\<open>None\<close> too, stores that
  \<^verbatim>\<open>None\<close> for \<^verbatim>\<open>X\<close> and succeeds: \<open>search\<close> returns exactly one solution, the
  environment in which \<^verbatim>\<open>X\<close> holds \<^verbatim>\<open>None\<close>. This holds on every database and with
  any implementation of the builtins.
\<close>

theorem is_with_atom_operand:
  "prolog_eval (PrologRuntime_init bi d) (2 + k)
      (Predicate ''+'' [atom ''a'', NumberLiteral 1]) Map.empty = ret None
   \<and> search (PrologRuntime_init bi d) (2 + k) (2 + j) [Map.empty]
      (query (Predicate ''is'' [Variable ''X'', Predicate ''+'' [atom ''a'', NumberLiteral 1]])) 0
     = ret ([[''X'' \<mapsto> None]], [Map.empty, [''X'' \<mapsto> None]])"
proof
  have "prolog_eval (PrologRuntime_init bi d) 2
      (Predicate ''+'' [atom ''a'', NumberLiteral 1]) Map.empty = ret None"
    by (simp add: run_defs runtime_defs eval_nat_numeral)
  with prolog_eval_mono [of 2 "2 + k" "PrologRuntime_init bi d"
      "Predicate ''+'' [atom ''a'', NumberLiteral 1]" Map.empty]
  show "prolog_eval (PrologRuntime_init bi d) (2 + k)
      (Predicate ''+'' [atom ''a'', NumberLiteral 1]) Map.empty = ret None"
    by (simp add: extends_def ret_def)
next
  from search_more_fuel [OF is_run [of bi d, unfolded ret_def], of k j]
  show "search (PrologRuntime_init bi d) (2 + k) (2 + j) [Map.empty]
      (query (Predicate ''is'' [Variable ''X'', Predicate ''+'' [atom ''a'', NumberLiteral 1]])) 0
     = ret ([[''X'' \<mapsto> None]], [Map.empty, [''X'' \<mapsto> None]])"
    by (simp add: ret_def)
qed

text \<open>Claim C4 as stated fails: the list of solutions is not empty.\<close>

theorem is_with_atom_operand_counterexample:
  "solutions_of (search family_rt 2 2 [Map.empty]
      (query (Predicate ''is'' [Variable ''X'', Predicate ''+'' [atom ''a'', NumberLiteral 1]])) 0)
   = ret [[''X'' \<mapsto> None]]
   \<and> solutions_of (search family_rt 2 2 [Map.empty]
      (query (Predicate ''is'' [Variable ''X'', Predicate ''+'' [atom ''a'', NumberLiteral 1]])) 0)
   \<noteq> ret []"
  by (simp add: run_defs family_defs eval_nat_numeral)

subsection \<open>The queue is first in, first out\<close>

lemma queue_children_queue:
  "queue_children rt d g pred clause cs s = Some (Inr s') \<Longrightarrow> \<exists>new. queue s' = new @ queue s"
proof (induction cs arbitrary: s)
  case Nil
  then show ?case by (simp add: ret_def)
next
  case (Cons c cs)
  from Cons.prems obtain s1 where
    r: "queue_children rt d g pred clause cs s1 = Some (Inr s')"
    and q: "queue s1 = queue s \<or> queue s1 = c # queue s"
    by (auto simp: bind_r_def Let_def split: option.splits sum.splits if_splits)
  from Cons.IH [OF r] q show ?case by auto
qed

lemma try_clauses_queue:
  "try_clauses rt d g pred cs s = Some (Inr s') \<Longrightarrow> \<exists>new. queue s' = new @ queue s"
proof (induction cs arbitrary: s)
  case Nil
  then show ?case by (simp add: ret_def)
next
  case (Cons c cs)
  from Cons.prems consider
      (skip) "try_clauses rt d g pred cs s = Some (Inr s')"
    | (go) children h1 s1 where
        "queue_children rt d g pred c children (s\<lparr>heap := h1\<rparr>) = Some (Inr s1)"
        "try_clauses rt d g pred cs s1 = Some (Inr s')"
    by (auto simp: bind_r_def split: option.splits sum.splits if_splits)
  then show ?case
  proof cases
    case skip
    then show ?thesis by (rule Cons.IH)
  next
    case go
    from queue_children_queue [OF go(1)] Cons.IH [OF go(2)] show ?thesis by auto
  qed
qed

text \<open>
  Claim C7, as amended. The main loop pops the least recently inserted goal: frames are
  inserted at the head of the queue and popped from its end, a first-in-first-out
  discipline. A pass that pops the frame \<open>g\<close> from the queue \<open>q @ [g]\<close> either executes
  a \<^verbatim>\<open>cut\<close>, which leaves \<open>g\<close> alone in the queue, or leaves every pending frame of
  \<open>q\<close> in place and inserts the new frames in front of them. So when a frame that is not
  the root completes, its continuation (the deep-copied parent with its index advanced)
  goes behind all the frames already pending, and the frame popped next is the oldest
  pending one: the continuation is processed after the alternatives already in the queue,
  not before.
\<close>

theorem queue_is_fifo:
  assumes "queue s = q @ [g]"
    and "step rt d s = Some (Inr s')"
  shows "((at_cut g \<and> queue s' = [advance g]) \<or> (\<exists>new. queue s' = new @ q))
    \<and> (length (goal_terms g) \<le> goal_inx g \<and> goal_parent g = Some gp \<longrightarrow>
         queue s' = advance (fst (deepcopy_goal (heap s) gp)) # q
         \<and> (q \<noteq> [] \<longrightarrow> last (queue s') = last q))"
proof
  show "(at_cut g \<and> queue s' = [advance g]) \<or> (\<exists>new. queue s' = new @ q)"
  proof (cases "length (goal_terms g) \<le> goal_inx g")
    case True
    with assms show ?thesis
      by (auto simp: step_def complete_goal_def bind_r_def ret_def Let_def
            split: option.splits sum.splits prod.splits)
  next
    case False
    with assms obtain name where name: "get_name (goal_terms g ! goal_inx g) = Inr name"
      by (auto simp: step_def bind_r_def lift_def Let_def split: sum.splits)
    show ?thesis
    proof (cases "name \<in> set [''is'', ''cut'', ''fail'']")
      case True
      with assms False name show ?thesis
        by (auto simp: step_def special_goal_def at_cut_def bind_r_def lift_def ret_def Let_def
              split: option.splits sum.splits if_splits)
    next
      case special: False
      show ?thesis
      proof (cases "builtins rt name")
        case (Some b)
        with assms False name special show ?thesis
          by (auto simp: step_def builtin_goal_def bind_r_def lift_def ret_def Let_def
                split: option.splits sum.splits if_splits)
      next
        case None
        with assms False name special obtain clauses where
          "try_clauses rt d g (goal_terms g ! goal_inx g) clauses (s\<lparr>queue := q\<rparr>) = Some (Inr s')"
          by (auto simp: step_def lookup_goal_def bind_r_def lift_def raise_def Let_def
                split: option.splits sum.splits if_splits)
        from try_clauses_queue [OF this] show ?thesis by simp
      qed
    qed
  qed
next
  from assms
  show "length (goal_terms g) \<le> goal_inx g \<and> goal_parent g = Some gp \<longrightarrow>
         queue s' = advance (fst (deepcopy_goal (heap s) gp)) # q
         \<and> (q \<noteq> [] \<longrightarrow> last (queue s') = last q)"
    by (auto simp: step_def complete_goal_def bind_r_def ret_def Let_def
          split: option.splits sum.splits prod.splits)
qed

lemmas bob_defs = bob_pending_def bob_root_def bob_ann_def bob_pat_def

lemma bob_first_pass:
  "step family_rt 3 \<lparr>queue = [bob_root], solutions = [], heap = [Map.empty, Map.empty]\<rparr>
     = ret bob_pending"
  by (simp add: run_defs family_defs bob_defs eval_nat_numeral)

lemma bob_second_pass:
  "step family_rt 3 bob_pending =
     ret \<lparr>queue = [PrologGoal (atom ''query'') [Predicate ''parent'' [atom ''bob'', Variable ''Z'']]
                      None 5 1, bob_pat],
          solutions = [],
          heap = [Map.empty, Map.empty, Map.empty, Map.empty, Map.empty, [''Z'' \<mapsto> Some (atom ''ann'')]]\<rparr>"
  by (simp add: run_defs family_defs bob_defs eval_nat_numeral)

text \<open>
  The theorem at the query \<^verbatim>\<open>parent(bob, Z)\<close> with both matching clauses pending: the
  frame of \<^verbatim>\<open>parent(bob, ann)\<close> completes, its continuation goes to the head of the
  queue, and the frame popped next is the pending alternative \<^verbatim>\<open>parent(bob, pat)\<close>.
\<close>

theorem queue_is_fifo_witness:
  "queue bob_pending = [bob_pat] @ [bob_ann]
   \<and> (\<exists>s'. step family_rt 3 bob_pending = Some (Inr s')
        \<and> queue s' = advance (fst (deepcopy_goal (heap bob_pending) bob_root)) # [bob_pat]
        \<and> last (queue s') = bob_pat)"
proof -
  have q: "queue bob_pending = [bob_pat] @ [bob_ann]"
    by (simp add: bob_pending_def)
  obtain s' where s': "step family_rt 3 bob_pending = Some (Inr s')"
    using bob_second_pass by (simp add: ret_def)
  have g: "length (goal_terms bob_ann) \<le> goal_inx bob_ann \<and> goal_parent bob_ann = Some bob_root"
    by (simp add: bob_ann_def)
  from queue_is_fifo [OF q s', of bob_root] g q s' show ?thesis by simp
qed

text \<open>
  Claim C7 as stated fails on the same run. The first pass inserts the frame of
  \<^verbatim>\<open>parent(bob, ann)\<close> and then that of \<^verbatim>\<open>parent(bob, pat)\<close>; the second pass pops the
  frame of \<^verbatim>\<open>parent(bob, ann)\<close>, the one inserted first, and after it the queue holds
  the continuation in front of the alternative \<^verbatim>\<open>parent(bob, pat)\<close>, which is at the
  end, where the next pass pops.
\<close>

theorem lifo_counterexample:
  "step family_rt 3 \<lparr>queue = [bob_root], solutions = [], heap = [Map.empty, Map.empty]\<rparr>
     = ret bob_pending
   \<and> queue bob_pending = [bob_pat, bob_ann]
   \<and> step family_rt 3 bob_pending =
     ret \<lparr>queue = [PrologGoal (atom ''query'') [Predicate ''parent'' [atom ''bob'', Variable ''Z'']]
                      None 5 1, bob_pat],
          solutions = [],
          heap = [Map.empty, Map.empty, Map.empty, Map.empty, Map.empty, [''Z'' \<mapsto> Some (atom ''ann'')]]\<rparr>
   \<and> last [PrologGoal (atom ''query'') [Predicate ''parent'' [atom ''bob'', Variable ''Z'']]
                      None 5 1, bob_pat] = bob_pat"
  using bob_first_pass bob_second_pass by (simp add: bob_pending_def)

subsection \<open>The order of the solutions\<close>

























subsection \<open>Cut\<close>

lemma cut_run:
  "solutions_of (search (PrologRuntime_init bi (db_of family_clauses)) 4 9 [Map.empty]
      (query (Predicate ''and'' [Predicate ''parent'' [atom ''tom'', Variable ''X''], atom ''cut'',
         Predicate ''parent'' [Variable ''X'', Variable ''Z'']])) 0)
   = ret [[''X'' \<mapsto> Some (atom ''bob''), ''Z'' \<mapsto> Some (atom ''ann'')],
          [''X'' \<mapsto> Some (atom ''bob''), ''Z'' \<mapsto> Some (atom ''pat'')]]"
  by (simp add: run_defs family_defs eval_nat_numeral)

lemma cut_step:
  assumes "queue s = q @ [g]"
    and "goal_inx g < length (goal_terms g)"
    and "get_name (goal_terms g ! goal_inx g) = Inr ''cut''"
  shows "step rt d s = ret (s\<lparr>queue := [advance g]\<rparr>)"
  using assms by (simp add: step_def special_goal_def bind_r_def lift_def)

text \<open>
  Claim C2. A pass that executes the subgoal \<^verbatim>\<open>cut\<close> empties the queue, discarding
  every pending frame, advances the index of the current frame and puts it back, so that
  the queue holds this frame alone. On the family database the query
  \<^verbatim>\<open>and(parent(tom,X), cut, parent(X,Z))\<close> returns exactly \<^verbatim>\<open>{X=bob,Z=ann}\<close> and
  \<^verbatim>\<open>{X=bob,Z=pat}\<close>, in this order.
\<close>

theorem cut_empties_the_queue:
  "(queue s = q @ [g] \<and> goal_inx g < length (goal_terms g)
      \<and> get_name (goal_terms g ! goal_inx g) = Inr ''cut''
     \<longrightarrow> step rt d s = ret (s\<lparr>queue := [advance g]\<rparr>))
   \<and> solutions_of (search (PrologRuntime_init bi (db_of family_clauses)) (4 + k) (9 + j)
        [Map.empty]
        (query (Predicate ''and'' [Predicate ''parent'' [atom ''tom'', Variable ''X''],
           atom ''cut'', Predicate ''parent'' [Variable ''X'', Variable ''Z'']])) 0)
     = ret [[''X'' \<mapsto> Some (atom ''bob''), ''Z'' \<mapsto> Some (atom ''ann'')],
            [''X'' \<mapsto> Some (atom ''bob''), ''Z'' \<mapsto> Some (atom ''pat'')]]"
  using cut_step [of s q g rt d]
    solutions_more_fuel [OF cut_run [of bi, unfolded ret_def], of k j]
  by (simp add: ret_def)

text \<open>
  The theorem at a queue that holds a pending frame behind a frame at \<^verbatim>\<open>cut\<close>, and
  the scenario on the runtime with the stand-in builtins.
\<close>

theorem cut_empties_the_queue_witness:
  "queue \<lparr>queue = [bob_pat, PrologGoal (atom ''query'') [atom ''cut''] None 1 0],
          solutions = [], heap = heap bob_pending\<rparr>
     = [bob_pat] @ [PrologGoal (atom ''query'') [atom ''cut''] None 1 0]
   \<and> step family_rt 0
       \<lparr>queue = [bob_pat, PrologGoal (atom ''query'') [atom ''cut''] None 1 0],
        solutions = [], heap = heap bob_pending\<rparr>
     = ret \<lparr>queue = [PrologGoal (atom ''query'') [atom ''cut''] None 1 1],
            solutions = [], heap = heap bob_pending\<rparr>
   \<and> solutions_of (search family_rt 4 9 [Map.empty]
        (query (Predicate ''and'' [Predicate ''parent'' [atom ''tom'', Variable ''X''],
           atom ''cut'', Predicate ''parent'' [Variable ''X'', Variable ''Z'']])) 0)
     = ret [[''X'' \<mapsto> Some (atom ''bob''), ''Z'' \<mapsto> Some (atom ''ann'')],
            [''X'' \<mapsto> Some (atom ''bob''), ''Z'' \<mapsto> Some (atom ''pat'')]]"
  using cut_empties_the_queue
    [of "\<lparr>queue = [bob_pat, PrologGoal (atom ''query'') [atom ''cut''] None 1 0],
          solutions = [], heap = heap bob_pending\<rparr>"
        "[bob_pat]" "PrologGoal (atom ''query'') [atom ''cut''] None 1 0"
        family_rt 0 stub_impls 0 0]
  by (simp add: atom_def advance_def family_rt_def)

subsection \<open>The caller's environment\<close>

lemma deepcopy_goal_fresh:
  "n0 \<le> length h \<Longrightarrow> deepcopy_goal h g = (g', h') \<Longrightarrow>
   n0 \<le> goal_env g' \<and> n0 \<le> length h' \<and> take n0 h' = take n0 h"
proof (induction h g arbitrary: g' h' rule: deepcopy_goal.induct)
  case (1 h hg ts e i)
  then show ?case by auto
next
  case (2 h hg ts p e i)
  obtain p' h1 where p: "deepcopy_goal h p = (p', h1)" by (cases "deepcopy_goal h p")
  from "2.IH" [OF "2.prems"(1) p] have "n0 \<le> length h1" and "take n0 h1 = take n0 h" by simp_all
  with "2.prems" p show ?case by auto
qed

lemma PrologGoal_init_fresh:
  "n0 \<le> length h \<Longrightarrow> PrologGoal_init h hg ts par e = (g, h') \<Longrightarrow>
   n0 \<le> goal_env g \<and> n0 \<le> length h' \<and> take n0 h' = take n0 h"
  by (auto simp: PrologGoal_init_def alloc_def)

lemma or_children_fresh:
  "n0 \<le> length h \<Longrightarrow> or_children g clause arms h = Some (Inr (cs, h')) \<Longrightarrow>
   list_all (\<lambda>c. n0 \<le> goal_env c) cs \<and> n0 \<le> length h' \<and> take n0 h' = take n0 h"
proof (induction arms arbitrary: h cs h')
  case Nil
  then show ?case by (simp add: ret_def)
next
  case (Cons a arms)
  from Cons.prems(2) obtain ts child h1 cs1 where
    i: "PrologGoal_init h (head clause) ts (Some g) None = (child, h1)"
    and r: "or_children g clause arms h1 = Some (Inr (cs1, h'))"
    and cs: "cs = child # cs1"
    by (auto simp: bind_r_def ret_def lift_def split: option.splits sum.splits prod.splits if_splits)
  from PrologGoal_init_fresh [OF Cons.prems(1) i] have c: "n0 \<le> goal_env child"
    and l: "n0 \<le> length h1" and t: "take n0 h1 = take n0 h" by simp_all
  from Cons.IH [OF l r] cs c t show ?case by simp
qed

lemma make_children_fresh:
  assumes "n0 \<le> length h" and "make_children g clause h = Some (Inr (cs, h'))"
  shows "list_all (\<lambda>c. n0 \<le> goal_env c) cs \<and> n0 \<le> length h' \<and> take n0 h' = take n0 h"
proof (cases "body clause")
  case None
  with assms(2) obtain child where
    "PrologGoal_init h (head clause) [] (Some g) None = (child, h')" and "cs = [child]"
    by (auto simp: make_children_def ret_def split: prod.splits)
  with PrologGoal_init_fresh [OF assms(1) this(1)] show ?thesis by simp
next
  case (Some b)
  with assms(2) consider
      (alt) arms where "or_children g clause arms h = Some (Inr (cs, h'))"
    | (one) ts child where
        "PrologGoal_init h (head clause) ts (Some g) None = (child, h')" and "cs = [child]"
    by (auto simp: make_children_def bind_r_def ret_def lift_def
          split: option.splits sum.splits prod.splits if_splits)
  then show ?thesis
  proof cases
    case alt
    from or_children_fresh [OF assms(1) alt] show ?thesis .
  next
    case one
    with PrologGoal_init_fresh [OF assms(1) one(1)] show ?thesis by simp
  qed
qed

lemma queue_children_fresh:
  "list_all (\<lambda>c. n0 \<le> goal_env c) cs \<Longrightarrow> fresh_from n0 s \<Longrightarrow>
   queue_children rt d g pred clause cs s = Some (Inr s') \<Longrightarrow>
   fresh_from n0 s' \<and> take n0 (heap s') = take n0 (heap s)"
proof (induction cs arbitrary: s)
  case Nil
  then show ?case by (simp add: ret_def)
next
  case (Cons c cs)
  from Cons.prems(3) obtain s1 e where
    r: "queue_children rt d g pred clause cs s1 = Some (Inr s')"
    and h: "heap s1 = (heap s)[goal_env c := e]"
    and q: "queue s1 = queue s \<or> queue s1 = c # queue s"
    by (auto simp: bind_r_def Let_def split: option.splits sum.splits if_splits)
  from Cons.prems(1) have c: "n0 \<le> goal_env c" and cs: "list_all (\<lambda>c. n0 \<le> goal_env c) cs"
    by simp_all
  from Cons.prems(2) h q c have f: "fresh_from n0 s1"
    by (auto simp: fresh_from_def)
  from h c have "take n0 (heap s1) = take n0 (heap s)" by simp
  with Cons.IH [OF cs f r] show ?case by simp
qed

lemma try_clauses_fresh:
  "fresh_from n0 s \<Longrightarrow> try_clauses rt d g pred cs s = Some (Inr s') \<Longrightarrow>
   fresh_from n0 s' \<and> take n0 (heap s') = take n0 (heap s)"
proof (induction cs arbitrary: s)
  case Nil
  then show ?case by (simp add: ret_def)
next
  case (Cons c cs)
  from Cons.prems(2) consider
      (skip) "try_clauses rt d g pred cs s = Some (Inr s')"
    | (go) children h1 s1 where
        "make_children g c (heap s) = Some (Inr (children, h1))"
        "queue_children rt d g pred c children (s\<lparr>heap := h1\<rparr>) = Some (Inr s1)"
        "try_clauses rt d g pred cs s1 = Some (Inr s')"
    by (auto simp: bind_r_def split: option.splits sum.splits if_splits)
  then show ?case
  proof cases
    case skip
    from Cons.IH [OF Cons.prems(1) skip] show ?thesis .
  next
    case go
    from Cons.prems(1) have n: "n0 \<le> length (heap s)" by (simp add: fresh_from_def)
    from make_children_fresh [OF n go(1)]
    have a: "list_all (\<lambda>c. n0 \<le> goal_env c) children" and l: "n0 \<le> length h1"
      and t: "take n0 h1 = take n0 (heap s)" by simp_all
    from Cons.prems(1) l have f: "fresh_from n0 (s\<lparr>heap := h1\<rparr>)" by (simp add: fresh_from_def)
    from queue_children_fresh [OF a f go(2)] have f1: "fresh_from n0 s1"
      and t1: "take n0 (heap s1) = take n0 h1" by simp_all
    from Cons.IH [OF f1 go(3)] t t1 show ?thesis by simp
  qed
qed


lemma complete_goal_fresh:
  assumes "fresh_from n0 s" and "n0 \<le> goal_env g"
    and "complete_goal rt d g s = Some (Inr s')"
  shows "fresh_from n0 s' \<and> take n0 (heap s') = take n0 (heap s)"
proof (cases "goal_parent g")
  case None
  with assms show ?thesis
    by (auto simp: complete_goal_def ret_def fresh_from_def)
next
  case (Some gp)
  obtain parent h1 where p: "deepcopy_goal (heap s) gp = (parent, h1)"
    by (cases "deepcopy_goal (heap s) gp")
  from assms(1) have n: "n0 \<le> length (heap s)" by (simp add: fresh_from_def)
  from deepcopy_goal_fresh [OF n p] have e: "n0 \<le> goal_env parent" and l: "n0 \<le> length h1"
    and t: "take n0 h1 = take n0 (heap s)" by simp_all
  from assms(3) Some p obtain e' where
    s': "s' = s\<lparr>queue := advance parent # queue s, heap := h1[goal_env parent := e']\<rparr>"
    by (auto simp: complete_goal_def bind_r_def ret_def split: option.splits sum.splits)
  from assms(1) e l t show ?thesis
    unfolding s' by (simp add: fresh_from_def advance_def)
qed

lemma special_goal_fresh:
  assumes "fresh_from n0 s" and "n0 \<le> goal_env g"
    and "special_goal rt d g pred name s = Some (Inr s')"
  shows "fresh_from n0 s' \<and> take n0 (heap s') = take n0 (heap s)"
  using assms
  by (auto simp: special_goal_def bind_r_def ret_def fresh_from_def advance_def
        split: option.splits sum.splits if_splits)

lemma builtin_goal_fresh:
  assumes "fresh_from n0 s" and "n0 \<le> goal_env g"
    and "builtin_goal b g s = Some (Inr s')"
  shows "fresh_from n0 s' \<and> take n0 (heap s') = take n0 (heap s)"
  using assms
  by (auto simp: builtin_goal_def bind_r_def ret_def fresh_from_def advance_def Let_def
        split: option.splits sum.splits if_splits)

lemma lookup_goal_fresh:
  assumes "fresh_from n0 s"
    and "lookup_goal rt d g pred name s = Some (Inr s')"
  shows "fresh_from n0 s' \<and> take n0 (heap s') = take n0 (heap s)"
proof -
  from assms(2) obtain clauses where "try_clauses rt d g pred clauses s = Some (Inr s')"
    by (auto simp: lookup_goal_def bind_r_def raise_def split: option.splits sum.splits if_splits)
  from try_clauses_fresh [OF assms(1) this] show ?thesis .
qed

lemma step_fresh:
  assumes "fresh_from n0 s" and "queue s \<noteq> []"
    and "step rt d s = Some (Inr s')"
  shows "fresh_from n0 s' \<and> take n0 (heap s') = take n0 (heap s)"
proof -
  let ?g = "last (queue s)"
  let ?s0 = "s\<lparr>queue := butlast (queue s)\<rparr>"
  from assms(1,2) have g: "n0 \<le> goal_env ?g"
    by (simp add: fresh_from_def list_all_iff)
  from assms(1) have f0: "fresh_from n0 ?s0"
    by (auto simp: fresh_from_def list_all_iff dest: in_set_butlastD)
  from assms(3) consider
      (complete) "complete_goal rt d ?g ?s0 = Some (Inr s')"
    | (special) pred name where "special_goal rt d ?g pred name ?s0 = Some (Inr s')"
    | (builtin) b where "builtin_goal b ?g ?s0 = Some (Inr s')"
    | (lookup) pred name where "lookup_goal rt d ?g pred name ?s0 = Some (Inr s')"
    by (auto simp: step_def Let_def bind_r_def split: option.splits sum.splits if_splits)
  then show ?thesis
  proof cases
    case complete
    from complete_goal_fresh [OF f0 g complete] show ?thesis by simp
  next
    case special
    from special_goal_fresh [OF f0 g special] show ?thesis by simp
  next
    case builtin
    from builtin_goal_fresh [OF f0 g builtin] show ?thesis by simp
  next
    case lookup
    from lookup_goal_fresh [OF f0 lookup] show ?thesis by simp
  qed
qed

lemma search_loop_fresh:
  "fresh_from n0 s \<Longrightarrow> search_loop rt d n s = Some (Inr s') \<Longrightarrow>
   take n0 (heap s') = take n0 (heap s)"
proof (induction n arbitrary: s)
  case 0
  then show ?case by (auto simp: ret_def split: if_splits)
next
  case (Suc n)
  show ?case
  proof (cases "queue s = []")
    case True
    with Suc.prems show ?thesis by (simp add: ret_def)
  next
    case False
    with Suc.prems(2) obtain s1 where st: "step rt d s = Some (Inr s1)"
      and r: "search_loop rt d n s1 = Some (Inr s')"
      by (auto simp: bind_r_def split: option.splits sum.splits)
    from step_fresh [OF Suc.prems(1) False st] have f: "fresh_from n0 s1"
      and t: "take n0 (heap s1) = take n0 (heap s)" by simp_all
    from Suc.IH [OF f r] t show ?thesis by simp
  qed
qed

text \<open>
  Claim C9. \<open>search\<close> never changes the environment the caller passes: the root frame
  owns a deep copy made at its construction, and every later write goes to a dict that a
  frame owns, allocated during the call. For every clause and every store, the caller's
  dict, at the address \<open>envref\<close>, holds after the call what it held before, and so does
  every other dict that existed before the call.
\<close>

theorem search_keeps_callers_env:
  assumes "envref < length h"
    and "search rt d n h clause envref = Some (Inr (sols, h'))"
  shows "h' ! envref = h ! envref \<and> take (length h) h' = h"
proof -
  have t: "take (length h) h' = h"
  proof (cases "body clause")
    case None
    with assms(2) show ?thesis by (simp add: search_def ret_def)
  next
    case (Some b)
    with assms(2) obtain ts g h1 s where
      i: "PrologGoal_init h (head clause) ts None (Some envref) = (g, h1)"
      and l: "search_loop rt d n \<lparr>queue = [g], solutions = [], heap = h1\<rparr> = Some (Inr s)"
      and h': "h' = heap s"
      by (auto simp: search_def Let_def bind_r_def ret_def raise_def
            split: prolog_term.splits option.splits sum.splits prod.splits)
    from PrologGoal_init_fresh [OF order_refl i] have e: "length h \<le> goal_env g"
      and n: "length h \<le> length h1" and t1: "take (length h) h1 = take (length h) h" by simp_all
    from e n have "fresh_from (length h) \<lparr>queue = [g], solutions = [], heap = h1\<rparr>"
      by (simp add: fresh_from_def)
    from search_loop_fresh [OF this l] t1 h' show ?thesis by simp
  qed
  from assms(1) have "h' ! envref = take (length h) h' ! envref" by simp
  with t show ?thesis by simp
qed

text \<open>
  The theorem at the query \<^verbatim>\<open>is(X, +(1,2))\<close>: the binding of \<^verbatim>\<open>X\<close> is written to
  the root's dict at address 1, and the caller's dict at address 0 is still empty.
\<close>

theorem search_keeps_callers_env_witness:
  "(0::nat) < length [Map.empty :: env]
   \<and> search family_rt 2 2 [Map.empty]
        (query (Predicate ''is'' [Variable ''X'', Predicate ''+'' [NumberLiteral 1, NumberLiteral 2]])) 0
     = Some (Inr ([[''X'' \<mapsto> Some (NumberLiteral 3)]],
                   [Map.empty, [''X'' \<mapsto> Some (NumberLiteral 3)]]))
   \<and> [Map.empty, [''X'' \<mapsto> Some (NumberLiteral 3)]] ! 0 = ([Map.empty] ! 0 :: env)"
proof -
  have r: "search family_rt 2 2 [Map.empty]
        (query (Predicate ''is'' [Variable ''X'', Predicate ''+'' [NumberLiteral 1, NumberLiteral 2]])) 0
     = Some (Inr ([[''X'' \<mapsto> Some (NumberLiteral 3)]],
                   [Map.empty, [''X'' \<mapsto> Some (NumberLiteral 3)]]))"
    by (simp add: run_defs family_defs prolog_binary_add_def eval_nat_numeral)
  have l: "(0::nat) < length [Map.empty :: env]" by simp
  from search_keeps_callers_env [OF l r] r show ?thesis by simp
qed

subsection \<open>Symmetry of unification\<close>

lemma matches_Variable [simp]: "matches t (Variable v)"
  by (cases t) simp_all

lemma matches_sym: "matches a b = matches b a" and "matches_list as bs = matches_list bs as"
  by (induction a b and as bs rule: matches_matches_list.induct) auto

lemma matches_list_length: "matches_list as bs \<Longrightarrow> length as = length bs"
proof (induction as arbitrary: bs)
  case Nil
  then show ?case by (cases bs) simp_all
next
  case (Cons a as)
  then show ?case by (cases bs) simp_all
qed


lemma eval_args_plain:
  assumes "\<And>a. a \<in> set as \<Longrightarrow> ev a = ret (if vars a = [] then Some a else None)"
  shows "eval_args ev as = ret (if concat (map vars as) = [] then Some as else None)"
  using assms by (induction as) (auto simp: bind_r_def ret_def)

lemma size_arg: "a \<in> set as \<Longrightarrow> size a < size (Predicate n as)"
  using size_list_estimation' [of a as "size a" size] by simp

lemma prolog_eval_plain:
  "plain rt t \<Longrightarrow> \<forall>v \<in> set (vars t). unbound env v \<Longrightarrow> size t < n \<Longrightarrow>
   prolog_eval rt n t env = ret (if vars t = [] then Some t else None)"
proof (induction t arbitrary: n)
  case (Variable v)
  then obtain m where "n = Suc m" by (cases n) auto
  with Variable show ?case
    by (auto simp: prolog_eval_body_def unbound_def)
next
  case (NumberLiteral f)
  then obtain m where "n = Suc m" by (cases n) auto
  then show ?case by (simp add: prolog_eval_body_def)
next
  case (StringLiteral x)
  then obtain m where "n = Suc m" by (cases n) auto
  then show ?case by (simp add: prolog_eval_body_def)
next
  case (ListLiteral l)
  then obtain m where "n = Suc m" by (cases n) auto
  then show ?case by (simp add: prolog_eval_body_def)
next
  case (Predicate name as)
  then obtain m where n: "n = Suc m" by (cases n) auto
  have args: "\<And>a. a \<in> set as \<Longrightarrow>
      prolog_eval rt m a env = ret (if vars a = [] then Some a else None)"
  proof -
    fix a assume a: "a \<in> set as"
    from Predicate.prems(1) a have p: "plain rt a" by (simp add: list_all_iff)
    from Predicate.prems(2) a have u: "\<forall>v \<in> set (vars a). unbound env v" by auto
    from size_arg [OF a, of name] Predicate.prems(3) n have "size a < m" by simp
    from Predicate.IH [OF a p u this]
    show "prolog_eval rt m a env = ret (if vars a = [] then Some a else None)" .
  qed
  from Predicate.prems(1) n eval_args_plain [of as "\<lambda>arg. prolog_eval rt m arg env", OF args]
  show ?case
    by (simp add: prolog_eval_body_def bind_r_def ret_def)
qed


lemma unify_args_matches:
  assumes "length as = length bs"
    and "\<And>a b de. (a, b) \<in> set (zip as bs) \<Longrightarrow> \<forall>v \<in> set (vars b). unbound de v \<Longrightarrow>
           \<exists>de'. un a b de = ret (matches a b, de') \<and> (\<forall>v. v \<notin> set (vars b) \<longrightarrow> de' v = de v)"
    and "distinct (concat (map vars bs))"
    and "\<forall>v \<in> set (concat (map vars bs)). unbound de v"
  shows "\<exists>de'. unify_args un (zip as bs) de = ret (matches_list as bs, de')
           \<and> (\<forall>v. v \<notin> set (concat (map vars bs)) \<longrightarrow> de' v = de v)"
  using assms
proof (induction as bs arbitrary: de rule: list_induct2)
  case Nil
  then show ?case by auto
next
  case (Cons a as b bs)
  from Cons.prems(3) have ub: "\<forall>v \<in> set (vars b). unbound de v" by simp
  from Cons.prems(1) [of a b de, OF _ ub] obtain de1 where
    h: "un a b de = ret (matches a b, de1)" and k: "\<forall>v. v \<notin> set (vars b) \<longrightarrow> de1 v = de v"
    by auto
  show ?case
  proof (cases "matches a b")
    case False
    with h k show ?thesis by (auto simp: bind_r_def ret_def)
  next
    case True
    have un': "\<And>a b de. (a, b) \<in> set (zip as bs) \<Longrightarrow> \<forall>v \<in> set (vars b). unbound de v \<Longrightarrow>
           \<exists>de'. un a b de = ret (matches a b, de') \<and> (\<forall>v. v \<notin> set (vars b) \<longrightarrow> de' v = de v)"
      using Cons.prems(1) by simp
    from Cons.prems(2) have d: "distinct (concat (map vars bs))"
      and dj: "set (vars b) \<inter> set (concat (map vars bs)) = {}" by auto
    have u1: "\<forall>v \<in> set (concat (map vars bs)). unbound de1 v"
    proof
      fix v assume v: "v \<in> set (concat (map vars bs))"
      with dj have "v \<notin> set (vars b)" by auto
      with k have "de1 v = de v" by simp
      moreover from Cons.prems(3) v have "unbound de v" by simp
      ultimately show "unbound de1 v" by (simp add: unbound_def)
    qed
    from Cons.IH [OF un' d u1] obtain de' where
      r: "unify_args un (zip as bs) de1 = ret (matches_list as bs, de')"
      and k': "\<forall>v. v \<notin> set (concat (map vars bs)) \<longrightarrow> de' v = de1 v" by auto
    from h r True k k' show ?thesis by (auto simp: bind_r_def ret_def)
  qed
qed


lemma unify_plain:
  "plain rt a \<Longrightarrow> plain rt b \<Longrightarrow> distinct (vars b) \<Longrightarrow> \<forall>v \<in> set (vars b). unbound de v \<Longrightarrow>
   size a + size b + 2 \<le> n \<Longrightarrow>
   \<exists>de'. unify rt n a Map.empty b de = ret (matches a b, de')
     \<and> (\<forall>v. v \<notin> set (vars b) \<longrightarrow> de' v = de v)"
proof (induction n arbitrary: a b de)
  case 0
  then show ?case by simp
next
  case (Suc m)
  from Suc.prems(5) have sa: "size a < m" and sb: "size b < m" by simp_all
  have ea: "prolog_eval rt m a Map.empty = ret (if vars a = [] then Some a else None)"
    by (rule prolog_eval_plain [OF Suc.prems(1) _ sa]) (simp add: unbound_def)
  have eb: "prolog_eval rt m b de = ret (if vars b = [] then Some b else None)"
    by (rule prolog_eval_plain [OF Suc.prems(2) Suc.prems(4) sb])
  show ?case
  proof (cases "\<exists>v. a = Variable v")
    case True
    with ea show ?thesis
      by (auto simp: unify_body_def bind_r_def ret_def)
  next
    case nva: False
    show ?thesis
    proof (cases "\<exists>v. b = Variable v")
      case True
      then obtain dv where b: "b = Variable dv" by auto
      with nva ea eb show ?thesis
        by (cases a) (auto simp: unify_body_def bind_r_def ret_def)
    next
      case nvb: False
      show ?thesis
      proof (cases "is_Literal a")
        case True
        with nva nvb ea eb show ?thesis
          by (cases a; cases b) (auto simp: unify_body_def bind_r_def ret_def)
      next
        case nla: False
        with nva obtain sname sargs where a: "a = Predicate sname sargs" by (cases a) auto
        show ?thesis
        proof (cases "is_Literal b")
          case True
          with a nvb show ?thesis
            by (cases b) (auto simp: unify_body_def ret_def)
        next
          case False
          with nvb obtain dname dargs where b: "b = Predicate dname dargs" by (cases b) auto
          show ?thesis
          proof (cases "sname = dname \<and> length sargs = length dargs")
            case False
            with a b matches_list_length [of sargs dargs] show ?thesis
              by (auto simp: unify_body_def ret_def)
          next
            case True
            then have len: "length sargs = length dargs" by simp
            from Suc.prems(3) b have dist: "distinct (concat (map vars dargs))" by simp
            from Suc.prems(4) b have ub: "\<forall>v \<in> set (concat (map vars dargs)). unbound de v"
              by simp
            have un: "\<And>x y e. (x, y) \<in> set (zip sargs dargs) \<Longrightarrow> \<forall>v \<in> set (vars y). unbound e v \<Longrightarrow>
                \<exists>e'. unify rt m x Map.empty y e = ret (matches x y, e')
                  \<and> (\<forall>v. v \<notin> set (vars y) \<longrightarrow> e' v = e v)"
            proof -
              fix x y e
              assume xy: "(x, y) \<in> set (zip sargs dargs)" and u: "\<forall>v \<in> set (vars y). unbound e v"
              from xy have x: "x \<in> set sargs" and y: "y \<in> set dargs"
                by (auto dest: set_zip_leftD set_zip_rightD)
              from Suc.prems(1) a x have px: "plain rt x" by (simp add: list_all_iff)
              from Suc.prems(2) b y have py: "plain rt y" by (simp add: list_all_iff)
              from dist y have dy: "distinct (vars y)" by (auto simp: distinct_concat_iff)
              from size_arg [OF x, of sname] size_arg [OF y, of dname] Suc.prems(5) a b
              have "size x + size y + 2 \<le> m" by simp
              from Suc.IH [OF px py dy u this]
              show "\<exists>e'. unify rt m x Map.empty y e = ret (matches x y, e')
                  \<and> (\<forall>v. v \<notin> set (vars y) \<longrightarrow> e' v = e v)" .
            qed
            from unify_args_matches
              [of sargs dargs "\<lambda>s d dde. unify rt m s Map.empty d dde" de, OF len un dist ub]
            obtain dde where
              r: "unify_args (\<lambda>s d dde. unify rt m s Map.empty d dde) (zip sargs dargs) de
                    = ret (matches_list sargs dargs, dde)"
              and k: "\<forall>v. v \<notin> set (concat (map vars dargs)) \<longrightarrow> dde v = de v"
              by auto
            from k have "\<forall>v. v \<notin> set (concat (map vars dargs)) \<longrightarrow> (de ++ dde) v = de v"
              by (auto simp: map_add_def split: option.splits)
            with a b True r show ?thesis
              by (auto simp: unify_body_def bind_r_def ret_def)
          qed
        qed
      qed
    qed
  qed
qed


lemma unify_true_iff_matches:
  assumes "plain rt a" and "plain rt b" and "distinct (vars b)"
  shows "(\<exists>n e. unify rt n a Map.empty b Map.empty = Some (Inr (True, e))) = matches a b"
proof
  assume "\<exists>n e. unify rt n a Map.empty b Map.empty = Some (Inr (True, e))"
  then obtain n e where t: "unify rt n a Map.empty b Map.empty = Some (Inr (True, e))" by auto
  let ?N = "max n (size a + size b + 2)"
  from unify_mono [of n ?N rt a Map.empty b Map.empty] t
  have "unify rt ?N a Map.empty b Map.empty = Some (Inr (True, e))"
    by (simp add: extends_def)
  moreover from unify_plain [OF assms, of Map.empty ?N]
  obtain de' where "unify rt ?N a Map.empty b Map.empty = ret (matches a b, de')"
    by (auto simp: unbound_def)
  ultimately show "matches a b" by (simp add: ret_def)
next
  assume m: "matches a b"
  from unify_plain [OF assms, of Map.empty "size a + size b + 2"]
  obtain de' where "unify rt (size a + size b + 2) a Map.empty b Map.empty = ret (matches a b, de')"
    by (auto simp: unbound_def)
  with m have "unify rt (size a + size b + 2) a Map.empty b Map.empty = Some (Inr (True, de'))"
    by (simp only: ret_def)
  then show "\<exists>n e. unify rt n a Map.empty b Map.empty = Some (Inr (True, e))"
    by blast
qed

text \<open>
  Claim C3, as amended. For all terms \<open>a\<close> and \<open>b\<close> that apply no arithmetic operator
  and no builtin function and in which no variable occurs twice,
  \<^verbatim>\<open>_unify(a, {}, b, {})\<close> returns true if and only if \<^verbatim>\<open>_unify(b, {}, a, {})\<close> returns
  true (the bindings recorded may differ). To return true is to return true at some
  depth of recursion.
\<close>

theorem unify_symmetric_on_linear_terms:
  assumes "plain rt a" and "plain rt b" and "distinct (vars a)" and "distinct (vars b)"
  shows "(\<exists>n e. unify rt n a Map.empty b Map.empty = Some (Inr (True, e)))
       = (\<exists>n e. unify rt n b Map.empty a Map.empty = Some (Inr (True, e)))"
  using unify_true_iff_matches [OF assms(1,2,4)] unify_true_iff_matches [OF assms(2,1,3)]
    matches_sym(1) [of a b]
  by simp

text \<open>
  The theorem at \<^verbatim>\<open>f(X, c)\<close> and \<^verbatim>\<open>f(d, Y)\<close>: both calls return true, one binds
  \<^verbatim>\<open>Y\<close>, the other \<^verbatim>\<open>X\<close>.
\<close>

theorem unify_symmetric_on_linear_terms_witness:
  "plain family_rt (Predicate ''f'' [Variable ''X'', atom ''c''])
   \<and> plain family_rt (Predicate ''f'' [atom ''d'', Variable ''Y''])
   \<and> distinct (vars (Predicate ''f'' [Variable ''X'', atom ''c'']))
   \<and> distinct (vars (Predicate ''f'' [atom ''d'', Variable ''Y'']))
   \<and> unify family_rt 3 (Predicate ''f'' [Variable ''X'', atom ''c'']) Map.empty
        (Predicate ''f'' [atom ''d'', Variable ''Y'']) Map.empty
      = Some (Inr (True, [''Y'' \<mapsto> Some (atom ''c'')]))
   \<and> unify family_rt 3 (Predicate ''f'' [atom ''d'', Variable ''Y'']) Map.empty
        (Predicate ''f'' [Variable ''X'', atom ''c'']) Map.empty
      = Some (Inr (True, [''X'' \<mapsto> Some (atom ''d'')]))
   \<and> ((\<exists>n e. unify family_rt n (Predicate ''f'' [Variable ''X'', atom ''c'']) Map.empty
                 (Predicate ''f'' [atom ''d'', Variable ''Y'']) Map.empty = Some (Inr (True, e)))
      = (\<exists>n e. unify family_rt n (Predicate ''f'' [atom ''d'', Variable ''Y'']) Map.empty
                 (Predicate ''f'' [Variable ''X'', atom ''c'']) Map.empty = Some (Inr (True, e))))"
proof -
  have p: "plain family_rt (Predicate ''f'' [Variable ''X'', atom ''c''])"
    "plain family_rt (Predicate ''f'' [atom ''d'', Variable ''Y''])"
    by (simp_all add: atom_def unary_operators_def binary_operators_def family_defs)
  have d: "distinct (vars (Predicate ''f'' [Variable ''X'', atom ''c'']))"
    "distinct (vars (Predicate ''f'' [atom ''d'', Variable ''Y'']))"
    by (simp_all add: atom_def)
  have u: "unify family_rt 3 (Predicate ''f'' [Variable ''X'', atom ''c'']) Map.empty
        (Predicate ''f'' [atom ''d'', Variable ''Y'']) Map.empty
      = Some (Inr (True, [''Y'' \<mapsto> Some (atom ''c'')]))"
    "unify family_rt 3 (Predicate ''f'' [atom ''d'', Variable ''Y'']) Map.empty
        (Predicate ''f'' [Variable ''X'', atom ''c'']) Map.empty
      = Some (Inr (True, [''X'' \<mapsto> Some (atom ''d'')]))"
    by (simp_all add: run_defs family_defs eval_nat_numeral)
  from unify_symmetric_on_linear_terms [OF p d] p d u show ?thesis by simp
qed

text \<open>
  Claim C3 as stated fails in two ways. A literal as source is compared with the value
  of the destination, while a literal as destination of a predicate fails at once:
  \<^verbatim>\<open>3\<close> unifies with \<^verbatim>\<open>+(1,2)\<close>, and \<^verbatim>\<open>+(1,2)\<close> does not unify with \<^verbatim>\<open>3\<close>. And
  only the destination's variables are ever bound: \<^verbatim>\<open>f(X,X)\<close> unifies with
  \<^verbatim>\<open>f(c,d)\<close>, and \<^verbatim>\<open>f(c,d)\<close> does not unify with \<^verbatim>\<open>f(X,X)\<close>.
\<close>

theorem unify_symmetric_counterexample:
  "unify family_rt 4 (NumberLiteral 3) Map.empty
      (Predicate ''+'' [NumberLiteral 1, NumberLiteral 2]) Map.empty
     = ret (True, Map.empty)
   \<and> unify family_rt 4 (Predicate ''+'' [NumberLiteral 1, NumberLiteral 2]) Map.empty
      (NumberLiteral 3) Map.empty
     = ret (False, Map.empty)
   \<and> unify family_rt 4 (Predicate ''f'' [Variable ''X'', Variable ''X'']) Map.empty
      (Predicate ''f'' [atom ''c'', atom ''d'']) Map.empty
     = ret (True, Map.empty)
   \<and> unify family_rt 4 (Predicate ''f'' [atom ''c'', atom ''d'']) Map.empty
      (Predicate ''f'' [Variable ''X'', Variable ''X'']) Map.empty
     = ret (False, Map.empty)"
  by (simp add: run_defs family_defs prolog_binary_add_def eval_nat_numeral)

end
